theory Spec2Isabelle
  imports Main
begin

section \<open>Data model of the slim task scheduler\<close>

text \<open>
  The scheduler of \<^verbatim>\<open>SlimTaskScheduler.inl\<close> is a class whose members are shared by the
  threads that call its methods and by its worker threads. The model is a record of these
  members, passed through every method, together with the state of the three mutexes, of
  the task storage and of the log of executed tasks.

  Threads, thread handles, storage blocks, tasks and interfaces are identified by numbers.
\<close>

type_synonym tid = nat
  \<comment> \<open>the thread that runs a call\<close>
type_synonym PThread = "nat option"
  \<comment> \<open>a shared pointer to a thread handle; \<open>None\<close> is \<^verbatim>\<open>nullptr\<close>\<close>
type_synonym slot = nat
  \<comment> \<open>a \<^verbatim>\<open>SlimTask*\<close>: the address of one block of task storage\<close>
type_synonym SlimTask = nat
  \<comment> \<open>a task; running it is recorded in the log \<open>executed\<close>\<close>

datatype EmptyResult = Success | Failure string

definition GrowthDisabled :: string where
  "GrowthDisabled =
     ''Trying to add more workers to a SlimTaskScheduler, but it has forbidden the growth.''"

definition ProvisioningUnavailable :: string where
  "ProvisioningUnavailable =
     ''Trying to add more workers to a SlimTaskScheduler, but the ThreadManager has expired.''"

definition NoAvailableWorkers :: string where
  "NoAvailableWorkers = ''Couldn't add the task, no available workers.''"

text \<open>
  What a call can do instead of returning. A mutex follows the usual contract: a thread
  that asks for a mutex which is held waits until it is released, and within one call
  nothing releases it (\<open>Blocked\<close>; this includes a thread asking again for a mutex it
  holds itself); unlocking a mutex the thread does not own has no defined behaviour
  (\<open>UnlockNotOwned\<close>). \<open>NeverJoined\<close> is the join loop of the shrink path spinning for
  ever, \<open>FatalPrecondition\<close> a failed \<^verbatim>\<open>VerifyNot\<close>, \<open>NullPointer\<close> a call through a
  null pointer.
\<close>

datatype fault = Blocked | UnlockNotOwned | NeverJoined | FatalPrecondition | NullPointer

record RWMutex =
  writer :: "tid option"
  readers :: "tid list"

type_synonym Mutex = "tid option"

text \<open>
  An interface of the host application, as far as the scheduler looks at it: its
  identity, its kind and the weak reference to its library, which in turn holds a weak
  reference to the application (\<open>None\<close> is an expired reference).
\<close>

record IInterface =
  ident :: nat
  GetInterfaceUUID :: nat
  GetLibrary :: "nat option option"
  \<comment> \<open>\<open>None\<close>: the library has expired; \<open>Some None\<close>: its application has expired;
      \<open>Some (Some a)\<close>: the application \<open>a\<close>\<close>

text \<open>
  The thread manager and the host are outside the scheduler. Their answers are parameters
  of the model: which managers are still alive (a weak pointer to a dead one has expired),
  what \<^verbatim>\<open>CreateThread\<close> answers to the request for worker \<open>i\<close>, what the \<open>k\<close>-th
  \<^verbatim>\<open>TryJoin\<close> on a thread answers, and the constant \<^verbatim>\<open>IThreadManager::InterfaceUUID\<close>.
\<close>

record provisioning =
  alive :: "nat \<Rightarrow> bool"
  CreateThread :: "nat \<Rightarrow> nat \<Rightarrow> string + nat"
  TryJoin :: "nat \<Rightarrow> nat \<Rightarrow> bool"
  InterfaceUUID :: nat

record scheduler =
  m_ThreadManager :: "nat option"
  m_OnManagerActivation :: "nat option"
  \<comment> \<open>the interface whose activation event the handler is connected to\<close>
  m_OnNewManager :: "nat option"
  \<comment> \<open>the application whose registration event the handler is connected to\<close>
  m_TaskWorkers :: "PThread list"
  m_TaskWorkersMutex :: RWMutex
  m_TaskQueue :: "slot list"
  m_TaskQueueMutex :: Mutex
  m_FreeTaskPool :: "slot list"
  m_FreeTaskPoolMutex :: Mutex
  m_AllowGrowth :: bool
  storage :: "slot \<Rightarrow> SlimTask option"
  \<comment> \<open>the task constructed in a block, if any\<close>
  allocated :: "slot set"
  next_block :: slot
  \<comment> \<open>the allocator hands out fresh addresses\<close>
  executed :: "SlimTask list"
  unguarded :: "nat list"
  \<comment> \<open>the source lines at which a thread has read or changed the worker pool while it
      held no lock on it\<close>

section \<open>Mutexes\<close>

text \<open>
  Modelled from the spec: the mutex types are declared outside the source file. The spec
  has three independent critical sections; the one of the worker pool is taken in shared
  mode by the operations that only read the pool and in exclusive mode by the resizes.
  A mutex records the thread that holds it, the worker-pool lock its exclusive holder and
  its shared holders.
\<close>

definition lock_workers :: "tid \<Rightarrow> scheduler \<Rightarrow> fault + scheduler" where
  "lock_workers me s =
     (if writer (m_TaskWorkersMutex s) = None \<and> readers (m_TaskWorkersMutex s) = []
      then Inr (s\<lparr>m_TaskWorkersMutex := (m_TaskWorkersMutex s)\<lparr>writer := Some me\<rparr>\<rparr>)
      else Inl Blocked)"

definition unlock_workers :: "tid \<Rightarrow> scheduler \<Rightarrow> fault + scheduler" where
  "unlock_workers me s =
     (if writer (m_TaskWorkersMutex s) = Some me
      then Inr (s\<lparr>m_TaskWorkersMutex := (m_TaskWorkersMutex s)\<lparr>writer := None\<rparr>\<rparr>)
      else Inl UnlockNotOwned)"

definition lock_shared_workers :: "tid \<Rightarrow> scheduler \<Rightarrow> fault + scheduler" where
  "lock_shared_workers me s =
     (if writer (m_TaskWorkersMutex s) = None
      then Inr (s\<lparr>m_TaskWorkersMutex :=
                   (m_TaskWorkersMutex s)\<lparr>readers := me # readers (m_TaskWorkersMutex s)\<rparr>\<rparr>)
      else Inl Blocked)"

definition unlock_shared_workers :: "tid \<Rightarrow> scheduler \<Rightarrow> fault + scheduler" where
  "unlock_shared_workers me s =
     (if me \<in> set (readers (m_TaskWorkersMutex s))
      then Inr (s\<lparr>m_TaskWorkersMutex :=
                   (m_TaskWorkersMutex s)\<lparr>readers := remove1 me (readers (m_TaskWorkersMutex s))\<rparr>\<rparr>)
      else Inl UnlockNotOwned)"

definition lock_queue :: "tid \<Rightarrow> scheduler \<Rightarrow> fault + scheduler" where
  "lock_queue me s =
     (case m_TaskQueueMutex s of
        None \<Rightarrow> Inr (s\<lparr>m_TaskQueueMutex := Some me\<rparr>)
      | Some _ \<Rightarrow> Inl Blocked)"

definition unlock_queue :: "tid \<Rightarrow> scheduler \<Rightarrow> fault + scheduler" where
  "unlock_queue me s =
     (if m_TaskQueueMutex s = Some me then Inr (s\<lparr>m_TaskQueueMutex := None\<rparr>)
      else Inl UnlockNotOwned)"

definition lock_free_pool :: "tid \<Rightarrow> scheduler \<Rightarrow> fault + scheduler" where
  "lock_free_pool me s =
     (case m_FreeTaskPoolMutex s of
        None \<Rightarrow> Inr (s\<lparr>m_FreeTaskPoolMutex := Some me\<rparr>)
      | Some _ \<Rightarrow> Inl Blocked)"

definition unlock_free_pool :: "tid \<Rightarrow> scheduler \<Rightarrow> fault + scheduler" where
  "unlock_free_pool me s =
     (if m_FreeTaskPoolMutex s = Some me then Inr (s\<lparr>m_FreeTaskPoolMutex := None\<rparr>)
      else Inl UnlockNotOwned)"

text \<open>The thread \<open>me\<close> holds the worker-pool lock, exclusively or shared.\<close>

definition holds_workers :: "tid \<Rightarrow> scheduler \<Rightarrow> bool" where
  "holds_workers me s =
     (writer (m_TaskWorkersMutex s) = Some me \<or> me \<in> set (readers (m_TaskWorkersMutex s)))"

text \<open>
  Every statement of the source that reads or changes \<^verbatim>\<open>m_TaskWorkers\<close> is marked in the
  model by \<open>touch\<close> with its line: it changes no member, and records the line when the
  thread holds no lock on the pool.
\<close>

definition touch :: "tid \<Rightarrow> nat \<Rightarrow> scheduler \<Rightarrow> scheduler" where
  "touch me line s =
     (if holds_workers me s then s else s\<lparr>unguarded := unguarded s @ [line]\<rparr>)"





section \<open>Task storage\<close>

text \<open>
  Modelled from the spec: \<^verbatim>\<open>AllocT\<close> and \<^verbatim>\<open>Dealloc\<close> belong to the memory layer of the
  library and are not in the source file. A slot is "freshly allocated" when the pool has
  none, and goes "back to the allocator" at teardown: a new block has an address that no
  block handed out before has, and a block given back is no longer allocated.
\<close>

definition AllocT :: "scheduler \<Rightarrow> slot \<times> scheduler" where
  "AllocT s =
     (next_block s,
      s\<lparr>allocated := insert (next_block s) (allocated s), next_block := Suc (next_block s)\<rparr>)"

definition Dealloc :: "slot \<Rightarrow> scheduler \<Rightarrow> scheduler" where
  "Dealloc p s = s\<lparr>allocated := allocated s - {p}\<rparr>"

text \<open>
  Modelled from the spec: \<^verbatim>\<open>Destroy\<close> is not in the source file; releasing a slot
  "resets the slot's contents (destroys the held task)", and at teardown the slot goes
  "back to the allocator".
\<close>

definition Destroy :: "slot \<Rightarrow> scheduler \<Rightarrow> scheduler" where
  "Destroy p s = Dealloc p (s\<lparr>storage := (storage s)(p := None)\<rparr>)"

text \<open>
  \<^verbatim>\<open>(*task)()\<close>: the task held by the block runs; the log records it. Running a block
  that holds no task is not defined in the source; the model leaves the log as it is, and
  the blocks that are run always hold one (\<open>blocks_apart\<close> below).
\<close>

definition run_task :: "slot \<Rightarrow> scheduler \<Rightarrow> scheduler" where
  "run_task p s =
     (case storage s p of
        None \<Rightarrow> s
      | Some t \<Rightarrow> s\<lparr>executed := executed s @ [t]\<rparr>)"

section \<open>Resizing the worker pool\<close>

text \<open>The growth loop of \<^verbatim>\<open>SetWorkerCount\<close> (lines 48 to 58), from index \<open>i\<close>.\<close>

function grow ::
  "tid \<Rightarrow> provisioning \<Rightarrow> nat \<Rightarrow> nat \<Rightarrow> nat \<Rightarrow> scheduler \<Rightarrow> EmptyResult \<times> scheduler" where
  "grow me env thManager count i s =
     (if i < count then
        (case CreateThread env thManager i of
           Inl msg \<Rightarrow> (Failure msg, s)
         | Inr th \<Rightarrow>
             grow me env thManager count (Suc i)
               ((touch me 57 s)\<lparr>m_TaskWorkers := m_TaskWorkers s @ [Some th]\<rparr>))
      else (Success, s))"
  by pat_completeness auto
termination
  by (relation "measure (\<lambda>(me, env, thManager, count, i, s). count - i)") auto

declare grow.simps [simp del]

text \<open>
  The join loop of the shrink path (lines 69 to 80): \<open>tryjoin k\<close> is the answer to the
  \<open>k\<close>-th attempt. The loop ends at the first attempt that succeeds and need not end at
  all; its value is the number of failed attempts, each followed by a broadcast of the
  queue signal.
\<close>

partial_function (option) join_loop :: "(nat \<Rightarrow> bool) \<Rightarrow> nat \<Rightarrow> nat option" where
  "join_loop tryjoin k = (if tryjoin k then Some k else join_loop tryjoin (Suc k))"

definition erase_at :: "nat \<Rightarrow> 'a list \<Rightarrow> 'a list" where
  "erase_at i xs = take i xs @ drop (Suc i) xs"

text \<open>
  One round of the shrink loop up to the release of the worker-pool lock (lines 65 to 68):
  the last slot is read and reset, and the lock that line 30 took is released.
\<close>

definition shrink_mark :: "tid \<Rightarrow> scheduler \<Rightarrow> fault + (PThread \<times> nat \<times> scheduler)" where
  "shrink_mark me s =
     (let sz = length (m_TaskWorkers s);
          th = m_TaskWorkers s ! (sz - 1);
          s1 = (touch me 67 (touch me 66 (touch me 65 s)))
                 \<lparr>m_TaskWorkers := (m_TaskWorkers s)[sz - 1 := None]\<rparr>
      in case unlock_workers me s1 of
           Inl f \<Rightarrow> Inl f
         | Inr s2 \<Rightarrow> Inr (th, sz, s2))"

text \<open>Lines 69 to 80: wait until the thread of the removed worker has ended.\<close>

definition shrink_join :: "provisioning \<Rightarrow> PThread \<Rightarrow> fault + unit" where
  "shrink_join env th =
     (case th of
        None \<Rightarrow> Inr ()
      | Some t \<Rightarrow> (case join_loop (TryJoin env t) 0 of None \<Rightarrow> Inl NeverJoined | Some _ \<Rightarrow> Inr ()))"

text \<open>Lines 81 and 82: the task-queue mutex is locked and the slot is erased.\<close>

definition shrink_erase :: "tid \<Rightarrow> nat \<Rightarrow> scheduler \<Rightarrow> fault + scheduler" where
  "shrink_erase me sz s =
     (case lock_queue me s of
        Inl f \<Rightarrow> Inl f
      | Inr s1 \<Rightarrow>
          Inr ((touch me 82 s1)\<lparr>m_TaskWorkers := erase_at (sz - 1) (m_TaskWorkers s1)\<rparr>))"

definition shrink_round :: "tid \<Rightarrow> provisioning \<Rightarrow> scheduler \<Rightarrow> fault + scheduler" where
  "shrink_round me env s =
     (case shrink_mark me s of
        Inl f \<Rightarrow> Inl f
      | Inr (th, sz, s1) \<Rightarrow>
          (case shrink_join env th of
             Inl f \<Rightarrow> Inl f
           | Inr _ \<Rightarrow> shrink_erase me sz s1))"

text \<open>The shrink loop (lines 63 to 83); its test reads the size of the pool.\<close>

function shrink :: "tid \<Rightarrow> provisioning \<Rightarrow> nat \<Rightarrow> scheduler \<Rightarrow> fault + scheduler" where
  "shrink me env count s =
     (if length (m_TaskWorkers s) > count then
        (case shrink_round me env (touch me 63 s) of
           Inl f \<Rightarrow> Inl f
         | Inr s' \<Rightarrow> shrink me env count s')
      else Inr (touch me 63 s))"
  by pat_completeness auto
termination
proof (relation "measure (\<lambda>(me, env, count, s). length (m_TaskWorkers s) - count)")
  show "wf (measure (\<lambda>(me, env, count, s). length (m_TaskWorkers s) - count))"
    by simp
next
  fix me :: tid and env :: provisioning and count :: nat and s s' :: scheduler
  assume less: "count < length (m_TaskWorkers s)"
    and round: "shrink_round me env (touch me 63 s) = Inr s'"
  from round have "length (m_TaskWorkers s') = length (m_TaskWorkers s) - 1"
    by (auto simp: shrink_round_def shrink_mark_def shrink_erase_def unlock_workers_def
        lock_queue_def erase_at_def touch_def Let_def
        split: sum.splits if_splits option.splits)
  with less show "((me, env, count, s'), (me, env, count, s))
      \<in> measure (\<lambda>(me, env, count, s). length (m_TaskWorkers s) - count)"
    by simp
qed

declare shrink.simps [simp del]

definition expired :: "provisioning \<Rightarrow> scheduler \<Rightarrow> bool" where
  "expired env s = (case m_ThreadManager s of None \<Rightarrow> True | Some m \<Rightarrow> \<not> alive env m)"

text \<open>
  \<^verbatim>\<open>SetWorkerCount\<close>. The growth branch adopts the lock of line 30 into a scoped lock, which
  releases it at every exit of the branch; the shrink branch does not.
\<close>

definition SetWorkerCount ::
  "tid \<Rightarrow> provisioning \<Rightarrow> nat \<Rightarrow> scheduler \<Rightarrow> fault + (EmptyResult \<times> scheduler)" where
  "SetWorkerCount me env count s =
     (case lock_workers me s of
        Inl f \<Rightarrow> Inl f
      | Inr s1 \<Rightarrow>
          if length (m_TaskWorkers s1) = count then
            (case unlock_workers me (touch me 31 s1) of
               Inl f \<Rightarrow> Inl f
             | Inr s2 \<Rightarrow> Inr (Success, s2))
          else if length (m_TaskWorkers s1) < count then
            (if \<not> m_AllowGrowth s1 then
               (case unlock_workers me (touch me 37 (touch me 31 s1)) of
                  Inl f \<Rightarrow> Inl f
                | Inr s2 \<Rightarrow> Inr (Failure GrowthDisabled, s2))
             else if expired env s1 then
               (case unlock_workers me (touch me 37 (touch me 31 s1)) of
                  Inl f \<Rightarrow> Inl f
                | Inr s2 \<Rightarrow> Inr (Failure ProvisioningUnavailable, s2))
             else
               (case grow me env (the (m_ThreadManager s1)) count (length (m_TaskWorkers s1))
                       (touch me 48 (touch me 37 (touch me 31 s1))) of
                  (r, s2) \<Rightarrow>
                    (case unlock_workers me s2 of
                       Inl f \<Rightarrow> Inl f
                     | Inr s3 \<Rightarrow> Inr (r, s3))))
          else
            (case shrink me env count (touch me 37 (touch me 31 s1)) of
               Inl f \<Rightarrow> Inl f
             | Inr s2 \<Rightarrow> Inr (Success, s2)))"

section \<open>Submitting a task\<close>

fun any_worker :: "PThread list \<Rightarrow> bool" where
  "any_worker [] = False"
| "any_worker (worker # rest) = (if worker \<noteq> None then True else any_worker rest)"

definition AreThereAnyAvailableWorker :: "tid \<Rightarrow> scheduler \<Rightarrow> bool \<times> scheduler" where
  "AreThereAnyAvailableWorker me s =
     (if m_TaskWorkers s = [] then (False, touch me 202 s)
      else (any_worker (m_TaskWorkers s), touch me 205 (touch me 202 s)))"

text \<open>
  Lines 96 to 110 of \<^verbatim>\<open>AddTask\<close>: a block is taken from the back of the free pool, or
  allocated when the pool is empty, and the task is constructed in it.
\<close>

definition acquire_slot :: "tid \<Rightarrow> SlimTask \<Rightarrow> scheduler \<Rightarrow> fault + (slot \<times> scheduler)" where
  "acquire_slot me task s =
     (case lock_free_pool me s of
        Inl f \<Rightarrow> Inl f
      | Inr s1 \<Rightarrow>
          (case (if m_FreeTaskPool s1 = [] then AllocT s1
                 else (last (m_FreeTaskPool s1),
                       s1\<lparr>m_FreeTaskPool := butlast (m_FreeTaskPool s1)\<rparr>)) of
             (taskPtr, s2) \<Rightarrow>
               (case unlock_free_pool me s2 of
                  Inl f \<Rightarrow> Inl f
                | Inr s3 \<Rightarrow> Inr (taskPtr, s3\<lparr>storage := (storage s3)(taskPtr \<mapsto> task)\<rparr>))))"

text \<open>
  Lines 112 to 115: the block is appended to the queue under the queue mutex. The
  notification that follows changes no member; a waiting worker may wake at any time.
\<close>

definition enqueue :: "tid \<Rightarrow> slot \<Rightarrow> scheduler \<Rightarrow> fault + scheduler" where
  "enqueue me taskPtr s =
     (case lock_queue me s of
        Inl f \<Rightarrow> Inl f
      | Inr s1 \<Rightarrow> unlock_queue me (s1\<lparr>m_TaskQueue := m_TaskQueue s1 @ [taskPtr]\<rparr>))"

text \<open>Lines 90 to 110, up to the constructed block; the shared lock stays held.\<close>

definition AddTask_begin ::
  "tid \<Rightarrow> SlimTask \<Rightarrow> scheduler \<Rightarrow> fault + (slot option \<times> scheduler)" where
  "AddTask_begin me task s =
     (case lock_shared_workers me s of
        Inl f \<Rightarrow> Inl f
      | Inr s1 \<Rightarrow>
          (case AreThereAnyAvailableWorker me s1 of
             (available, s2) \<Rightarrow>
               if \<not> available then
                 (case unlock_shared_workers me s2 of
                    Inl f \<Rightarrow> Inl f
                  | Inr s3 \<Rightarrow> Inr (None, s3))
               else
                 (case acquire_slot me task s2 of
                    Inl f \<Rightarrow> Inl f
                  | Inr (taskPtr, s3) \<Rightarrow> Inr (Some taskPtr, s3))))"

text \<open>Lines 112 to 117, and the release of the shared lock on return.\<close>

definition AddTask_end :: "tid \<Rightarrow> slot \<Rightarrow> scheduler \<Rightarrow> fault + scheduler" where
  "AddTask_end me taskPtr s =
     (case enqueue me taskPtr s of
        Inl f \<Rightarrow> Inl f
      | Inr s1 \<Rightarrow> unlock_shared_workers me s1)"

definition AddTask :: "tid \<Rightarrow> SlimTask \<Rightarrow> scheduler \<Rightarrow> fault + (EmptyResult \<times> scheduler)" where
  "AddTask me task s =
     (case AddTask_begin me task s of
        Inl f \<Rightarrow> Inl f
      | Inr (None, s1) \<Rightarrow> Inr (Failure NoAvailableWorkers, s1)
      | Inr (Some taskPtr, s1) \<Rightarrow>
          (case AddTask_end me taskPtr s1 of
             Inl f \<Rightarrow> Inl f
           | Inr s2 \<Rightarrow> Inr (Success, s2)))"




section \<open>Waiting for the queue to drain\<close>



section \<open>Growth policy, construction and teardown\<close>

definition EnableGrowth :: "tid \<Rightarrow> bool \<Rightarrow> scheduler \<Rightarrow> fault + scheduler" where
  "EnableGrowth me enable s =
     (case lock_workers me s of
        Inl f \<Rightarrow> Inl f
      | Inr s1 \<Rightarrow> unlock_workers me (s1\<lparr>m_AllowGrowth := enable\<rparr>))"



text \<open>
  \<^verbatim>\<open>Stop\<close>: the result of \<^verbatim>\<open>SetWorkerCount(0)\<close> is dropped; every queued block is run and
  destroyed in queue order, the queue is cleared, every block of the free pool is given
  back. No mutex is taken by \<^verbatim>\<open>Stop\<close> itself, and the free pool is not cleared.
\<close>

definition drain :: "slot list \<Rightarrow> scheduler \<Rightarrow> scheduler" where
  "drain ps s = fold (\<lambda>task s. Destroy task (run_task task s)) ps s"

definition Stop :: "tid \<Rightarrow> provisioning \<Rightarrow> scheduler \<Rightarrow> fault + scheduler" where
  "Stop me env s =
     (case SetWorkerCount me env 0 s of
        Inl f \<Rightarrow> Inl f
      | Inr (_, s1) \<Rightarrow>
          (let s2 = drain (m_TaskQueue s1) s1;
               s3 = s2\<lparr>m_TaskQueue := []\<rparr>
           in Inr (fold Dealloc (m_FreeTaskPool s3) s3)))"

text \<open>
  The constructor: the manager given must be alive; the activation handler is connected
  to it, the initial workers are created with growth allowed, and the growth flag is
  stored afterwards. A scheduler under construction has no worker, task or block, and its
  mutexes are free.
\<close>

definition fresh_scheduler :: "nat option \<Rightarrow> scheduler" where
  "fresh_scheduler threadMgr =
     \<lparr>m_ThreadManager = threadMgr, m_OnManagerActivation = None, m_OnNewManager = None,
      m_TaskWorkers = [], m_TaskWorkersMutex = \<lparr>writer = None, readers = []\<rparr>,
      m_TaskQueue = [], m_TaskQueueMutex = None,
      m_FreeTaskPool = [], m_FreeTaskPoolMutex = None,
      m_AllowGrowth = True, storage = (\<lambda>p. None), allocated = {}, next_block = 0,
      executed = [], unguarded = []\<rparr>"

definition Create ::
  "tid \<Rightarrow> provisioning \<Rightarrow> nat option \<Rightarrow> nat \<Rightarrow> bool \<Rightarrow> fault + scheduler" where
  "Create me env threadMgr workerCount allowGrowth =
     (let s = fresh_scheduler threadMgr in
      if expired env s then Inl FatalPrecondition
      else
        (case SetWorkerCount me env workerCount (s\<lparr>m_OnManagerActivation := threadMgr\<rparr>) of
           Inl f \<Rightarrow> Inl f
         | Inr (_, s1) \<Rightarrow> Inr (s1\<lparr>m_AllowGrowth := allowGrowth\<rparr>)))"


section \<open>The provisioning binding\<close>

text \<open>
  The two notification handlers only assign the manager reference and connect or
  disconnect the two subscriptions. Each is the list of these statements in the order of
  the source, run under the shared worker-pool lock, so that the states between two
  statements can be looked at as well.

  Modelled from the spec: the event and handler types are declared outside the source
  file. A subscription handle is active from its connect to its disconnect, and
  disconnecting an inactive handle does nothing.
\<close>

datatype stmt =
    StoreManager nat
  | DisconnectActivation
  | ConnectActivation nat
  | DisconnectNewManager
  | ConnectNewManager nat
  | Abort fault

fun exec_stmt :: "stmt \<Rightarrow> scheduler \<Rightarrow> fault + scheduler" where
  "exec_stmt (StoreManager m) s = Inr (s\<lparr>m_ThreadManager := Some m\<rparr>)"
| "exec_stmt DisconnectActivation s = Inr (s\<lparr>m_OnManagerActivation := None\<rparr>)"
| "exec_stmt (ConnectActivation m) s = Inr (s\<lparr>m_OnManagerActivation := Some m\<rparr>)"
| "exec_stmt DisconnectNewManager s = Inr (s\<lparr>m_OnNewManager := None\<rparr>)"
| "exec_stmt (ConnectNewManager a) s = Inr (s\<lparr>m_OnNewManager := Some a\<rparr>)"
| "exec_stmt (Abort f) s = Inl f"

fun exec_stmts :: "stmt list \<Rightarrow> scheduler \<Rightarrow> fault + scheduler" where
  "exec_stmts [] s = Inr s"
| "exec_stmts (c # cs) s =
     (case exec_stmt c s of Inl f \<Rightarrow> Inl f | Inr s' \<Rightarrow> exec_stmts cs s')"

text \<open>The state after each statement, as far as the statements run.\<close>

fun states_after :: "stmt list \<Rightarrow> scheduler \<Rightarrow> scheduler list" where
  "states_after [] s = []"
| "states_after (c # cs) s =
     (case exec_stmt c s of Inl f \<Rightarrow> [] | Inr s' \<Rightarrow> s' # states_after cs s')"

text \<open>Lines 148 to 154.\<close>

definition OnNewManager_body :: "provisioning \<Rightarrow> IInterface option \<Rightarrow> stmt list" where
  "OnNewManager_body env newInterface =
     (case newInterface of
        None \<Rightarrow> []
      | Some i \<Rightarrow>
          if GetInterfaceUUID i \<noteq> InterfaceUUID env then []
          else [StoreManager (ident i), DisconnectActivation, ConnectActivation (ident i),
                DisconnectNewManager])"

text \<open>Lines 160 to 183.\<close>

definition OnManagerActivation_body ::
  "bool \<Rightarrow> IInterface option \<Rightarrow> IInterface option \<Rightarrow> stmt list" where
  "OnManagerActivation_body active oldInterface newInterface =
     (if active then []
      else
        (case newInterface of
           Some newThreadMgr \<Rightarrow>
             [DisconnectActivation, ConnectActivation (ident newThreadMgr),
              StoreManager (ident newThreadMgr)]
         | None \<Rightarrow>
             DisconnectActivation #
             (case oldInterface of
                None \<Rightarrow> [Abort NullPointer]
              | Some old \<Rightarrow>
                  (case GetLibrary old of
                     None \<Rightarrow> [Abort FatalPrecondition]
                   | Some None \<Rightarrow> [Abort FatalPrecondition]
                   | Some (Some app) \<Rightarrow> [DisconnectNewManager, ConnectNewManager app]))))"

definition under_shared_lock :: "tid \<Rightarrow> stmt list \<Rightarrow> scheduler \<Rightarrow> fault + scheduler" where
  "under_shared_lock me body s =
     (case lock_shared_workers me s of
        Inl f \<Rightarrow> Inl f
      | Inr s1 \<Rightarrow>
          (case exec_stmts body s1 of
             Inl f \<Rightarrow> Inl f
           | Inr s2 \<Rightarrow> unlock_shared_workers me s2))"

definition OnNewManager ::
  "tid \<Rightarrow> provisioning \<Rightarrow> IInterface option \<Rightarrow> scheduler \<Rightarrow> fault + scheduler" where
  "OnNewManager me env newInterface s =
     under_shared_lock me (OnNewManager_body env newInterface) s"

definition OnManagerActivation ::
  "tid \<Rightarrow> bool \<Rightarrow> IInterface option \<Rightarrow> IInterface option \<Rightarrow> scheduler \<Rightarrow> fault + scheduler" where
  "OnManagerActivation me active oldInterface newInterface s =
     under_shared_lock me (OnManagerActivation_body active oldInterface newInterface) s"

text \<open>
  The two states of the binding, told apart by the subscription that is active: bound to
  a manager (subscribed to its activation event), or unbound (subscribed to the
  registration event of the application).
\<close>

definition Bound :: "scheduler \<Rightarrow> bool" where
  "Bound s = (m_OnManagerActivation s \<noteq> None)"

definition Unbound :: "scheduler \<Rightarrow> bool" where
  "Unbound s = (m_OnNewManager s \<noteq> None)"

section \<open>The worker loop\<close>

definition present :: "nat \<Rightarrow> scheduler \<Rightarrow> bool" where
  "present workerID s =
     (length (m_TaskWorkers s) > workerID \<and> m_TaskWorkers s ! workerID \<noteq> None)"

definition CanWorkerContinueWorking ::
  "tid \<Rightarrow> nat \<Rightarrow> scheduler \<Rightarrow> fault + (bool \<times> scheduler)" where
  "CanWorkerContinueWorking me workerID s =
     (case lock_shared_workers me s of
        Inl f \<Rightarrow> Inl f
      | Inr s1 \<Rightarrow>
          (case unlock_shared_workers me (touch me 230 s1) of
             Inl f \<Rightarrow> Inl f
           | Inr s2 \<Rightarrow> Inr (present workerID s1, s2)))"

text \<open>
  \<^verbatim>\<open>WorkerFn\<close> runs beside the threads that submit and resize, so its loop is given by its
  steps between the points where another thread can come in:
  \<^item> \<open>AtLock\<close>: line 240, before the queue mutex is taken;
  \<^item> \<open>AtCheck\<close>: lines 241 and 247, holding the queue mutex, before the call of
    \<^verbatim>\<open>CanWorkerContinueWorking\<close>;
  \<^item> \<open>AtTest canWork\<close>: line 244, holding the queue mutex, with the answer of the check;
  \<^item> \<open>Waiting\<close>: line 246, inside \<^verbatim>\<open>wait\<close>, the queue mutex released;
  \<^item> \<open>Executing task\<close>: line 263, the queue mutex released, with the block taken from the
    queue or \<^verbatim>\<open>nullptr\<close>;
  \<^item> \<open>Terminated\<close>: the loop has been left.
  A waiting worker may wake at any time, by a notification or without one: its step takes
  the queue mutex again and leads to the check of line 247.
\<close>

datatype wpc = AtLock | AtCheck | AtTest bool | Waiting | Executing "slot option" | Terminated

definition release_slot :: "tid \<Rightarrow> slot \<Rightarrow> scheduler \<Rightarrow> fault + scheduler" where
  "release_slot me task s =
     (case lock_free_pool me (s\<lparr>storage := (storage s)(task := None)\<rparr>) of
        Inl f \<Rightarrow> Inl f
      | Inr s1 \<Rightarrow> unlock_free_pool me (s1\<lparr>m_FreeTaskPool := m_FreeTaskPool s1 @ [task]\<rparr>))"

fun WorkerFn_step :: "tid \<Rightarrow> nat \<Rightarrow> wpc \<Rightarrow> scheduler \<Rightarrow> fault + (wpc \<times> scheduler)" where
  "WorkerFn_step me workerID AtLock s =
     (case lock_queue me s of Inl f \<Rightarrow> Inl f | Inr s1 \<Rightarrow> Inr (AtCheck, s1))"
| "WorkerFn_step me workerID AtCheck s =
     (case CanWorkerContinueWorking me workerID s of
        Inl f \<Rightarrow> Inl f
      | Inr (canWork, s1) \<Rightarrow> Inr (AtTest canWork, s1))"
| "WorkerFn_step me workerID (AtTest canWork) s =
     (if m_TaskQueue s = [] \<and> canWork then
        (case unlock_queue me s of Inl f \<Rightarrow> Inl f | Inr s1 \<Rightarrow> Inr (Waiting, s1))
      else if \<not> canWork then
        (case unlock_queue me s of Inl f \<Rightarrow> Inl f | Inr s1 \<Rightarrow> Inr (Terminated, s1))
      else if m_TaskQueue s \<noteq> [] then
        (case unlock_queue me (s\<lparr>m_TaskQueue := tl (m_TaskQueue s)\<rparr>) of
           Inl f \<Rightarrow> Inl f
         | Inr s1 \<Rightarrow> Inr (Executing (Some (hd (m_TaskQueue s))), s1))
      else
        (case unlock_queue me s of Inl f \<Rightarrow> Inl f | Inr s1 \<Rightarrow> Inr (Executing None, s1)))"
| "WorkerFn_step me workerID Waiting s =
     (case lock_queue me s of Inl f \<Rightarrow> Inl f | Inr s1 \<Rightarrow> Inr (AtCheck, s1))"
| "WorkerFn_step me workerID (Executing None) s = Inr (AtLock, s)"
| "WorkerFn_step me workerID (Executing (Some task)) s =
     (case release_slot me task (run_task task s) of
        Inl f \<Rightarrow> Inl f
      | Inr s1 \<Rightarrow> Inr (AtLock, s1))"
| "WorkerFn_step me workerID Terminated s = Inr (Terminated, s)"



section \<open>A worker beside a submitting and a resizing thread\<close>

text \<open>
  The first lines of \<^verbatim>\<open>SetWorkerCount\<close> on the shrink path, up to line 68: the last slot
  of the pool has been reset and the worker-pool lock released; the caller goes on to
  wait for the worker's thread.
\<close>

definition begin_shrink :: "tid \<Rightarrow> scheduler \<Rightarrow> fault + (PThread \<times> nat \<times> scheduler)" where
  "begin_shrink me s =
     (case lock_workers me s of
        Inl f \<Rightarrow> Inl f
      | Inr s1 \<Rightarrow> shrink_mark me (touch me 63 (touch me 37 (touch me 31 s1))))"

text \<open>
  One worker thread \<open>w\<close> running \<^verbatim>\<open>WorkerFn\<close> with the id \<open>i\<close>, one thread \<open>c\<close> that submits
  tasks, and threads that shrink the pool. The submitting thread is inside at most one
  call of \<^verbatim>\<open>AddTask\<close>; \<open>client\<close> is the block and task it holds between the two halves of
  the call, \<open>accepted\<close> the tasks for which \<^verbatim>\<open>AddTask\<close> has returned success, in the order
  of the calls. \<open>Shrink r count\<close> is a thread \<open>r\<close> that calls \<^verbatim>\<open>SetWorkerCount(count)\<close> with
  \<open>count\<close> below the size of the pool and has reached line 68. A step that has to wait for
  a mutex does not take place.
\<close>

record system =
  sched :: scheduler
  worker :: wpc
  client :: "(slot \<times> SlimTask) option"
  accepted :: "SlimTask list"

datatype event = Work | Submit SlimTask | Finish | Shrink tid nat

fun step :: "tid \<Rightarrow> nat \<Rightarrow> tid \<Rightarrow> event \<Rightarrow> system \<Rightarrow> system" where
  "step w i c Work sys =
     (case WorkerFn_step w i (worker sys) (sched sys) of
        Inl f \<Rightarrow> sys
      | Inr (pc, s) \<Rightarrow> sys\<lparr>sched := s, worker := pc\<rparr>)"
| "step w i c (Submit task) sys =
     (case client sys of
        Some _ \<Rightarrow> sys
      | None \<Rightarrow>
          (case AddTask_begin c task (sched sys) of
             Inl f \<Rightarrow> sys
           | Inr (None, s) \<Rightarrow> sys\<lparr>sched := s\<rparr>
           | Inr (Some taskPtr, s) \<Rightarrow> sys\<lparr>sched := s, client := Some (taskPtr, task)\<rparr>))"
| "step w i c Finish sys =
     (case client sys of
        None \<Rightarrow> sys
      | Some (taskPtr, task) \<Rightarrow>
          (case AddTask_end c taskPtr (sched sys) of
             Inl f \<Rightarrow> sys
           | Inr s \<Rightarrow> sys\<lparr>sched := s, client := None, accepted := accepted sys @ [task]\<rparr>))"
| "step w i c (Shrink r count) sys =
     (if length (m_TaskWorkers (sched sys)) > count then
        (case begin_shrink r (sched sys) of
           Inl f \<Rightarrow> sys
         | Inr (_, _, s) \<Rightarrow> sys\<lparr>sched := s\<rparr>)
      else sys)"

fun run :: "tid \<Rightarrow> nat \<Rightarrow> tid \<Rightarrow> event list \<Rightarrow> system \<Rightarrow> system" where
  "run w i c [] sys = sys"
| "run w i c (e # es) sys = run w i c es (step w i c e sys)"


section \<open>Auxiliary notions and example states\<close>

text \<open>No thread holds the worker-pool lock, in either mode.\<close>

definition pool_lock_free :: "scheduler \<Rightarrow> bool" where
  "pool_lock_free s =
     (writer (m_TaskWorkersMutex s) = None \<and> readers (m_TaskWorkersMutex s) = [])"

text \<open>The members of the provisioning binding, replaced.\<close>

definition rebind :: "nat option \<Rightarrow> nat option \<Rightarrow> nat option \<Rightarrow> scheduler \<Rightarrow> scheduler" where
  "rebind tm act reg s =
     s\<lparr>m_ThreadManager := tm, m_OnManagerActivation := act, m_OnNewManager := reg\<rparr>"

text \<open>The block the next accepted task is constructed in.\<close>

definition next_slot :: "scheduler \<Rightarrow> slot" where
  "next_slot s = (if m_FreeTaskPool s = [] then next_block s else last (m_FreeTaskPool s))"

text \<open>
  A provisioning subsystem that is alive and answers every request, and one that runs out
  of threads after the first worker.
\<close>

definition example_env :: provisioning where
  "example_env =
     \<lparr>alive = (\<lambda>m. True), CreateThread = (\<lambda>m i. Inr (100 + i)),
      TryJoin = (\<lambda>th k. True), InterfaceUUID = 42\<rparr>"

definition limited_env :: provisioning where
  "limited_env =
     \<lparr>alive = (\<lambda>m. True),
      CreateThread = (\<lambda>m i. if i = 0 then Inr 100 else Inl ''no thread left''),
      TryJoin = (\<lambda>th k. True), InterfaceUUID = 42\<rparr>"

text \<open>
  A scheduler as its constructor leaves it, bound to the manager 5, with the given worker
  slots.
\<close>

definition bound_scheduler :: "PThread list \<Rightarrow> scheduler" where
  "bound_scheduler ws =
     (fresh_scheduler (Some 5))\<lparr>m_OnManagerActivation := Some 5, m_TaskWorkers := ws\<rparr>"

text \<open>
  Every connect in a list of statements comes after a disconnect of the same subscription,
  with no connect of that subscription in between: \<open>act\<close> and \<open>reg\<close> say whether the
  activation and the registration subscription have been disconnected since they were
  last connected.
\<close>

fun disconnects_first :: "bool \<Rightarrow> bool \<Rightarrow> stmt list \<Rightarrow> bool" where
  "disconnects_first act reg [] = True"
| "disconnects_first act reg (DisconnectActivation # cs) = disconnects_first True reg cs"
| "disconnects_first act reg (ConnectActivation m # cs) = (act \<and> disconnects_first False reg cs)"
| "disconnects_first act reg (DisconnectNewManager # cs) = disconnects_first act True cs"
| "disconnects_first act reg (ConnectNewManager a # cs) = (reg \<and> disconnects_first act False cs)"
| "disconnects_first act reg (StoreManager m # cs) = disconnects_first act reg cs"
| "disconnects_first act reg (Abort f # cs) = disconnects_first act reg cs"

text \<open>
  The bound manager 5 and a replacement 6, both thread managers of the application 9, and
  the scheduler after manager 5 has reported its deactivation.
\<close>

definition manager5 :: IInterface where
  "manager5 = \<lparr>ident = 5, GetInterfaceUUID = 42, GetLibrary = Some (Some 9)\<rparr>"

definition manager6 :: IInterface where
  "manager6 = \<lparr>ident = 6, GetInterfaceUUID = 42, GetLibrary = Some (Some 9)\<rparr>"

definition unbound_scheduler :: "PThread list \<Rightarrow> scheduler" where
  "unbound_scheduler ws =
     (bound_scheduler ws)\<lparr>m_OnManagerActivation := None, m_OnNewManager := Some 9\<rparr>"

text \<open>
  The scheduler with the given worker slots after one accepted task 7, which is still in
  the queue.
\<close>

definition queued_scheduler :: "PThread list \<Rightarrow> scheduler" where
  "queued_scheduler ws =
     (bound_scheduler ws)\<lparr>m_TaskQueue := [0], storage := (\<lambda>p. None)(0 \<mapsto> 7),
                           allocated := {0}, next_block := 1\<rparr>"

text \<open>
  The blocks of a system: the one the worker is executing, the one the submitting thread
  holds between the two halves of \<^verbatim>\<open>AddTask\<close>, and all the blocks the scheduler owns.
\<close>

definition in_flight :: "system \<Rightarrow> slot list" where
  "in_flight sys = (case worker sys of Executing (Some p) \<Rightarrow> [p] | _ \<Rightarrow> [])"

definition in_hand :: "system \<Rightarrow> slot list" where
  "in_hand sys = (case client sys of Some (p, t) \<Rightarrow> [p] | None \<Rightarrow> [])"

definition owned :: "system \<Rightarrow> slot list" where
  "owned sys =
     in_flight sys @ m_TaskQueue (sched sys) @ in_hand sys @ m_FreeTaskPool (sched sys)"

text \<open>
  The tasks that have been executed, the task that is being executed and the tasks in
  the queue, in this order.
\<close>

definition history :: "system \<Rightarrow> SlimTask option list" where
  "history sys =
     map Some (executed (sched sys))
     @ map (storage (sched sys)) (in_flight sys @ m_TaskQueue (sched sys))"

text \<open>The block in the hand of the submitting thread holds the task being submitted.\<close>

definition holds_task :: "(slot \<Rightarrow> SlimTask option) \<Rightarrow> (slot \<times> SlimTask) option \<Rightarrow> bool" where
  "holds_task st cl = (case cl of None \<Rightarrow> True | Some (p, t) \<Rightarrow> st p = Some t)"

text \<open>
  The blocks of a system are kept apart: no block is owned twice, every owned block has
  been handed out by the allocator, the block being executed and the queued blocks hold
  a task, and so does the block in the submitting thread's hand.
\<close>

definition blocks_apart :: "system \<Rightarrow> bool" where
  "blocks_apart sys =
     (distinct (owned sys)
      \<and> list_all (\<lambda>p. p < next_block (sched sys)) (owned sys)
      \<and> list_all (\<lambda>p. storage (sched sys) p \<noteq> None) (in_flight sys @ m_TaskQueue (sched sys))
      \<and> holds_task (storage (sched sys)) (client sys))"

text \<open>
  The order of the tasks: from the history \<open>h0\<close> on, the tasks executed, being executed
  and queued are the accepted tasks, in the order of their acceptance.
\<close>

definition fifo_inv :: "SlimTask option list \<Rightarrow> system \<Rightarrow> bool" where
  "fifo_inv h0 sys = (blocks_apart sys \<and> history sys = h0 @ map Some (accepted sys))"

text \<open>
  The worker is between a check that let it continue and its return to line 240: at the
  loop test with \<open>canWork\<close> true, or executing.
\<close>

fun past_check :: "wpc \<Rightarrow> bool" where
  "past_check (AtTest canWork) = canWork"
| "past_check (Executing task) = True"
| "past_check pc = False"

text \<open>
  The number of blocks the worker has taken from the queue, as far as the log and the
  block being executed show it, and whether the worker stands at the loop test with a
  check passed, about to take one more.
\<close>

definition taken :: "system \<Rightarrow> nat" where
  "taken sys = length (executed (sched sys)) + length (in_flight sys)"

definition cleared :: "wpc \<Rightarrow> nat" where
  "cleared pc = (if pc = AtTest True then 1 else 0)"

text \<open>
  A worker with the id 0 about to start its loop on a scheduler with one worker slot,
  with no task yet and with the tasks 7 and 8 in the queue.
\<close>

definition idle_system :: system where
  "idle_system =
     \<lparr>sched = bound_scheduler [Some 100], worker = AtLock, client = None, accepted = []\<rparr>"

definition loaded_system :: system where
  "loaded_system =
     \<lparr>sched = (bound_scheduler [Some 100])
                \<lparr>m_TaskQueue := [0, 1], storage := (\<lambda>p. None)(0 \<mapsto> 7, 1 \<mapsto> 8),
                 allocated := {0, 1}, next_block := 2\<rparr>,
      worker = AtLock, client = None, accepted = []\<rparr>"

text \<open>The same with the worker's slot reset and the worker waiting.\<close>

definition marked_system :: system where
  "marked_system =
     \<lparr>sched = (bound_scheduler [None])
                \<lparr>m_TaskQueue := [0, 1], storage := (\<lambda>p. None)(0 \<mapsto> 7, 1 \<mapsto> 8),
                 allocated := {0, 1}, next_block := 2\<rparr>,
      worker = Waiting, client = None, accepted = []\<rparr>"

text \<open>
  A schedule in which three submissions and the steps of the worker are interleaved; the
  third task reuses the block of the first.
\<close>

definition interleaved :: "event list" where
  "interleaved =
     [Submit 7, Work, Finish, Work, Work, Finish, Submit 8, Work, Work, Work, Finish, Work,
      Submit 9, Finish, Work, Work, Work, Work, Work, Work, Work, Work]"




text \<open>The state with the task-queue mutex replaced.\<close>

definition set_queue_mutex :: "tid option \<Rightarrow> scheduler \<Rightarrow> scheduler" where
  "set_queue_mutex q s = s\<lparr>m_TaskQueueMutex := q\<rparr>"



definition stalled_scheduler :: scheduler where
  "stalled_scheduler =
     (bound_scheduler [Some 100])\<lparr>m_TaskQueueMutex := Some 0, unguarded := [82, 63]\<rparr>"

definition stalled_system :: system where
  "stalled_system =
     \<lparr>sched = stalled_scheduler, worker = Waiting, client = None, accepted = []\<rparr>"

section \<open>Properties of the mutex operations and of the resize loops\<close>

lemma touch_locked [simp]:
  "writer (m_TaskWorkersMutex s) = Some me \<Longrightarrow> touch me l s = s"
  "me \<in> set (readers (m_TaskWorkersMutex s)) \<Longrightarrow> touch me l s = s"
  by (simp_all add: touch_def holds_workers_def)

lemma touch_fields [simp]:
  "m_TaskWorkers (touch me l s) = m_TaskWorkers s"
  "m_TaskWorkersMutex (touch me l s) = m_TaskWorkersMutex s"
  "m_TaskQueue (touch me l s) = m_TaskQueue s"
  "m_TaskQueueMutex (touch me l s) = m_TaskQueueMutex s"
  "m_FreeTaskPool (touch me l s) = m_FreeTaskPool s"
  "m_FreeTaskPoolMutex (touch me l s) = m_FreeTaskPoolMutex s"
  "m_AllowGrowth (touch me l s) = m_AllowGrowth s"
  "m_ThreadManager (touch me l s) = m_ThreadManager s"
  "m_OnManagerActivation (touch me l s) = m_OnManagerActivation s"
  "m_OnNewManager (touch me l s) = m_OnNewManager s"
  "storage (touch me l s) = storage s"
  "allocated (touch me l s) = allocated s"
  "next_block (touch me l s) = next_block s"
  "executed (touch me l s) = executed s"
  by (simp_all add: touch_def)



lemma any_worker_iff: "any_worker ws = (\<exists>w\<in>set ws. w \<noteq> None)"
  by (induction ws) auto

lemma shared_lock_roundtrip:
  "writer (m_TaskWorkersMutex s) = None \<Longrightarrow>
   lock_shared_workers me s = Inr s1 \<Longrightarrow> unlock_shared_workers me s1 = Inr s"
  by (auto simp: lock_shared_workers_def unlock_shared_workers_def)

lemma shrink_round_length:
  "shrink_round me env s = Inr s' \<Longrightarrow> m_TaskWorkers s \<noteq> [] \<Longrightarrow>
   length (m_TaskWorkers s') = length (m_TaskWorkers s) - 1"
  by (auto simp: shrink_round_def shrink_mark_def shrink_erase_def unlock_workers_def
      lock_queue_def erase_at_def Let_def split: sum.splits if_splits option.splits)

lemma shrink_round_writer:
  "shrink_round me env s = Inr s' \<Longrightarrow>
   writer (m_TaskWorkersMutex s) = Some me \<and> writer (m_TaskWorkersMutex s') = None"
  by (auto simp: shrink_round_def shrink_mark_def shrink_erase_def unlock_workers_def
      lock_queue_def Let_def split: sum.splits if_splits option.splits)

lemma shrink_by_one:
  "shrink me env count s = Inr s' \<Longrightarrow> count < length (m_TaskWorkers s) \<Longrightarrow>
   (\<exists>s1. shrink_round me env (touch me 63 s) = Inr s1 \<and> s' = touch me 63 s1)
   \<and> length (m_TaskWorkers s) = Suc count"
proof -
  assume ret: "shrink me env count s = Inr s'" and less: "count < length (m_TaskWorkers s)"
  from ret less obtain s1 where round: "shrink_round me env (touch me 63 s) = Inr s1"
    and rest: "shrink me env count s1 = Inr s'"
    by (subst (asm) shrink.simps) (auto split: sum.splits)
  from round have w: "writer (m_TaskWorkersMutex s1) = None"
    by (simp add: shrink_round_writer)
  have len: "length (m_TaskWorkers s1) = length (m_TaskWorkers s) - 1"
    using shrink_round_length[OF round] less by (cases "m_TaskWorkers s") auto
  have "\<not> count < length (m_TaskWorkers s1)"
  proof
    assume "count < length (m_TaskWorkers s1)"
    with rest obtain s2 where "shrink_round me env (touch me 63 s1) = Inr s2"
      by (subst (asm) shrink.simps) (auto split: sum.splits)
    from shrink_round_writer[OF this] have "writer (m_TaskWorkersMutex s1) = Some me"
      by simp
    with w show False by simp
  qed
  with rest have "s' = touch me 63 s1" by (subst (asm) shrink.simps) simp
  with round len less \<open>\<not> count < length (m_TaskWorkers s1)\<close> show ?thesis by auto
qed

lemma SetWorkerCount_zero_returns:
  assumes "SetWorkerCount me env 0 s = Inr (r, s')"
  shows "m_TaskWorkers s' = [] \<and> writer (m_TaskWorkersMutex s') = None"
proof -
  from assms obtain s1 where l: "lock_workers me s = Inr s1"
    by (auto simp: SetWorkerCount_def split: sum.splits)
  then have held: "writer (m_TaskWorkersMutex s1) = Some me"
    by (auto simp: lock_workers_def split: if_splits)
  show ?thesis
  proof (cases "m_TaskWorkers s1 = []")
    case True
    with assms l held show ?thesis
      by (auto simp: SetWorkerCount_def unlock_workers_def split: sum.splits if_splits)
  next
    case False
    with assms l held have sh: "shrink me env 0 s1 = Inr s'"
      by (auto simp: SetWorkerCount_def split: sum.splits if_splits)
    from False have pos: "0 < length (m_TaskWorkers s1)" by simp
    from shrink_by_one[OF sh pos] obtain s2 where
      round: "shrink_round me env (touch me 63 s1) = Inr s2" and s': "s' = touch me 63 s2"
      and one: "length (m_TaskWorkers s1) = Suc 0" by auto
    from round have "writer (m_TaskWorkersMutex s2) = None"
      by (simp add: shrink_round_writer)
    moreover from shrink_round_length[OF round] False one have "m_TaskWorkers s2 = []"
      by simp
    ultimately show ?thesis by (simp add: s')
  qed
qed

lemma AddTask_rejects:
  assumes "writer (m_TaskWorkersMutex s) = None" "\<forall>w\<in>set (m_TaskWorkers s). w = None"
  shows "AddTask me task s = Inr (Failure NoAvailableWorkers, s)"
proof -
  obtain s1 where l: "lock_shared_workers me s = Inr s1"
    using assms(1) by (simp add: lock_shared_workers_def)
  then have same: "m_TaskWorkers s1 = m_TaskWorkers s"
    by (auto simp: lock_shared_workers_def split: if_splits)
  from l have held: "me \<in> set (readers (m_TaskWorkersMutex s1))"
    by (auto simp: lock_shared_workers_def split: if_splits)
  have "AreThereAnyAvailableWorker me s1 = (False, s1)"
    using assms(2) held by (simp add: AreThereAnyAvailableWorker_def any_worker_iff same)
  moreover have "unlock_shared_workers me s1 = Inr s"
    using assms(1) l by (rule shared_lock_roundtrip)
  ultimately show ?thesis
    using l by (simp add: AddTask_def AddTask_begin_def)
qed

lemma exclusive_lock_free:
  "writer (m_TaskWorkersMutex s) = None \<Longrightarrow> readers (m_TaskWorkersMutex s) = [] \<Longrightarrow>
   lock_workers me s = Inr (s\<lparr>m_TaskWorkersMutex := (m_TaskWorkersMutex s)\<lparr>writer := Some me\<rparr>\<rparr>)"
  by (simp add: lock_workers_def)

lemma exclusive_unlock_back:
  "writer (m_TaskWorkersMutex s) = None \<Longrightarrow>
   unlock_workers me (s\<lparr>m_TaskWorkersMutex := (m_TaskWorkersMutex s)\<lparr>writer := Some me\<rparr>,
                         m_TaskWorkers := ws\<rparr>) = Inr (s\<lparr>m_TaskWorkers := ws\<rparr>)"
  by (simp add: unlock_workers_def)

lemma grow_prefix:
  "i \<le> k \<Longrightarrow> k \<le> count \<Longrightarrow> writer (m_TaskWorkersMutex s) = Some me \<Longrightarrow>
   (\<forall>j. i \<le> j \<and> j < k \<longrightarrow> CreateThread env m j = Inr (th j)) \<Longrightarrow>
   grow me env m count i s =
     grow me env m count k (s\<lparr>m_TaskWorkers := m_TaskWorkers s @ map (\<lambda>j. Some (th j)) [i..<k]\<rparr>)"
proof (induction k)
  case 0
  then show ?case by simp
next
  case (Suc k)
  show ?case
  proof (cases "i = Suc k")
    case True
    then show ?thesis by simp
  next
    case False
    with Suc.prems have ik: "i \<le> k" and kc: "k < count" by auto
    have "grow me env m count i s =
        grow me env m count k (s\<lparr>m_TaskWorkers := m_TaskWorkers s @ map (\<lambda>j. Some (th j)) [i..<k]\<rparr>)"
      using Suc.IH ik kc Suc.prems(3,4) by simp
    also have "\<dots> = grow me env m count (Suc k)
        (s\<lparr>m_TaskWorkers := m_TaskWorkers s @ map (\<lambda>j. Some (th j)) [i..<Suc k]\<rparr>)"
      using kc ik Suc.prems(3,4) by (subst grow.simps) simp
    finally show ?thesis .
  qed
qed

lemma grow_done: "grow me env m count count s = (Success, s)"
  by (subst grow.simps) simp

lemma grow_failure:
  "k < count \<Longrightarrow> CreateThread env m k = Inl msg \<Longrightarrow> grow me env m count k s = (Failure msg, s)"
  by (subst grow.simps) simp



lemma SetWorkerCount_growth_disabled:
  assumes "pool_lock_free s" "\<not> m_AllowGrowth s" "length (m_TaskWorkers s) < target"
  shows "SetWorkerCount me env target s = Inr (Failure GrowthDisabled, s)"
  using assms
  by (simp add: SetWorkerCount_def pool_lock_free_def lock_workers_def unlock_workers_def)

lemma EnableGrowth_free:
  assumes "pool_lock_free s"
  shows "EnableGrowth me enable s = Inr (s\<lparr>m_AllowGrowth := enable\<rparr>)"
  using assms
  by (simp add: EnableGrowth_def pool_lock_free_def lock_workers_def unlock_workers_def)

lemma SetWorkerCount_growth:
  assumes free: "pool_lock_free s" and allow: "m_AllowGrowth s"
    and mgr: "m_ThreadManager s = Some m" "alive env m"
    and less: "length (m_TaskWorkers s) < target"
  shows "SetWorkerCount me env target s =
     (case grow me env m target (length (m_TaskWorkers s))
             (s\<lparr>m_TaskWorkersMutex := (m_TaskWorkersMutex s)\<lparr>writer := Some me\<rparr>\<rparr>) of
        (r, s2) \<Rightarrow> (case unlock_workers me s2 of Inl f \<Rightarrow> Inl f | Inr s3 \<Rightarrow> Inr (r, s3)))"
  using assms
  by (simp add: SetWorkerCount_def pool_lock_free_def lock_workers_def expired_def)

lemma SetWorkerCount_partial_growth:
  assumes free: "pool_lock_free s" and allow: "m_AllowGrowth s"
    and mgr: "m_ThreadManager s = Some m" "alive env m"
    and k: "length (m_TaskWorkers s) \<le> k" "k < target"
    and ok: "\<forall>j. length (m_TaskWorkers s) \<le> j \<and> j < k \<longrightarrow> CreateThread env m j = Inr (th j)"
    and bad: "CreateThread env m k = Inl msg"
  shows "SetWorkerCount me env target s =
     Inr (Failure msg,
          s\<lparr>m_TaskWorkers :=
               m_TaskWorkers s @ map (\<lambda>j. Some (th j)) [length (m_TaskWorkers s)..<k]\<rparr>)"
proof -
  let ?n = "length (m_TaskWorkers s)"
  let ?s1 = "s\<lparr>m_TaskWorkersMutex := (m_TaskWorkersMutex s)\<lparr>writer := Some me\<rparr>\<rparr>"
  let ?ws = "m_TaskWorkers s @ map (\<lambda>j. Some (th j)) [?n..<k]"
  have "grow me env m target ?n ?s1 = grow me env m target k (?s1\<lparr>m_TaskWorkers := ?ws\<rparr>)"
    using grow_prefix[where i="?n" and k=k and count=target and me=me and s="?s1" and env=env and m=m and th=th] k ok by simp
  also have "\<dots> = (Failure msg, ?s1\<lparr>m_TaskWorkers := ?ws\<rparr>)"
    using k(2) bad by (rule grow_failure)
  finally have g: "grow me env m target ?n ?s1 = (Failure msg, ?s1\<lparr>m_TaskWorkers := ?ws\<rparr>)" .
  have u: "unlock_workers me (?s1\<lparr>m_TaskWorkers := ?ws\<rparr>) = Inr (s\<lparr>m_TaskWorkers := ?ws\<rparr>)"
    using free by (simp add: exclusive_unlock_back pool_lock_free_def)
  from k have "?n < target" by simp
  from SetWorkerCount_growth[OF free allow mgr this] show ?thesis
    by (simp add: g u)
qed

lemma SetWorkerCount_full_growth:
  assumes free: "pool_lock_free s" and allow: "m_AllowGrowth s"
    and mgr: "m_ThreadManager s = Some m" "alive env m"
    and less: "length (m_TaskWorkers s) < target"
    and ok: "\<forall>j. length (m_TaskWorkers s) \<le> j \<and> j < target \<longrightarrow> CreateThread env m j = Inr (th j)"
  shows "SetWorkerCount me env target s =
     Inr (Success,
          s\<lparr>m_TaskWorkers :=
               m_TaskWorkers s @ map (\<lambda>j. Some (th j)) [length (m_TaskWorkers s)..<target]\<rparr>)"
proof -
  let ?n = "length (m_TaskWorkers s)"
  let ?s1 = "s\<lparr>m_TaskWorkersMutex := (m_TaskWorkersMutex s)\<lparr>writer := Some me\<rparr>\<rparr>"
  let ?ws = "m_TaskWorkers s @ map (\<lambda>j. Some (th j)) [?n..<target]"
  have "grow me env m target ?n ?s1 = grow me env m target target (?s1\<lparr>m_TaskWorkers := ?ws\<rparr>)"
    using grow_prefix[where i="?n" and k=target and count=target and me=me and s="?s1" and env=env and m=m and th=th] less ok by simp
  then have g: "grow me env m target ?n ?s1 = (Success, ?s1\<lparr>m_TaskWorkers := ?ws\<rparr>)"
    by (simp add: grow_done)
  have u: "unlock_workers me (?s1\<lparr>m_TaskWorkers := ?ws\<rparr>) = Inr (s\<lparr>m_TaskWorkers := ?ws\<rparr>)"
    using free by (simp add: exclusive_unlock_back pool_lock_free_def)
  from SetWorkerCount_growth[OF free allow mgr less] show ?thesis
    by (simp add: g u)
qed

lemma AddTask_accepts:
  assumes w: "\<exists>w\<in>set (m_TaskWorkers s). w \<noteq> None"
    and free: "writer (m_TaskWorkersMutex s) = None" "m_TaskQueueMutex s = None"
      "m_FreeTaskPoolMutex s = None"
  shows "\<exists>s'. AddTask me task s = Inr (Success, s')
     \<and> m_TaskQueue s' = m_TaskQueue s @ [next_slot s]
     \<and> storage s' (next_slot s) = Some task"
proof -
  from w have ne: "m_TaskWorkers s \<noteq> []" by auto
  have avail: "any_worker (m_TaskWorkers s)"
    using w by (simp add: any_worker_iff)
  show ?thesis
    using free ne avail
    by (auto simp: AddTask_def AddTask_begin_def AddTask_end_def acquire_slot_def enqueue_def
        lock_shared_workers_def unlock_shared_workers_def lock_queue_def unlock_queue_def
        lock_free_pool_def unlock_free_pool_def AreThereAnyAvailableWorker_def AllocT_def
        next_slot_def)
qed

lemma AddTask_ignores_binding:
  "AddTask me task (rebind tm act reg s) =
     (case AddTask me task s of
        Inl f \<Rightarrow> Inl f
      | Inr (r, s') \<Rightarrow> Inr (r, rebind tm act reg s'))"
  by (simp add: AddTask_def AddTask_begin_def AddTask_end_def acquire_slot_def enqueue_def
        lock_shared_workers_def unlock_shared_workers_def lock_queue_def unlock_queue_def
        lock_free_pool_def unlock_free_pool_def AreThereAnyAvailableWorker_def AllocT_def
        rebind_def split: option.split)





lemma exec_stmt_mutex:
  "exec_stmt c (s\<lparr>m_TaskWorkersMutex := x\<rparr>) =
     (case exec_stmt c s of Inl f \<Rightarrow> Inl f | Inr t \<Rightarrow> Inr (t\<lparr>m_TaskWorkersMutex := x\<rparr>))"
  by (cases c) simp_all

lemma exec_stmts_mutex:
  "exec_stmts cs (s\<lparr>m_TaskWorkersMutex := x\<rparr>) =
     (case exec_stmts cs s of Inl f \<Rightarrow> Inl f | Inr t \<Rightarrow> Inr (t\<lparr>m_TaskWorkersMutex := x\<rparr>))"
  by (induction cs arbitrary: s) (auto simp: exec_stmt_mutex split: sum.splits)

lemma exec_stmt_keeps_mutex:
  "exec_stmt c s = Inr t \<Longrightarrow> m_TaskWorkersMutex t = m_TaskWorkersMutex s"
  by (cases c) auto

lemma exec_stmts_keeps_mutex:
  "exec_stmts cs s = Inr t \<Longrightarrow> m_TaskWorkersMutex t = m_TaskWorkersMutex s"
  by (induction cs arbitrary: s) (auto split: sum.splits dest: exec_stmt_keeps_mutex)

lemma under_shared_lock_result:
  assumes "writer (m_TaskWorkersMutex s) = None"
  shows "under_shared_lock me body s = exec_stmts body s"
proof (cases "exec_stmts body s")
  case (Inl f)
  with assms show ?thesis
    by (simp add: under_shared_lock_def lock_shared_workers_def exec_stmts_mutex)
next
  case (Inr t)
  from exec_stmts_keeps_mutex[OF Inr] have "m_TaskWorkersMutex t = m_TaskWorkersMutex s" .
  with assms Inr show ?thesis
    by (simp add: under_shared_lock_def lock_shared_workers_def exec_stmts_mutex
        unlock_shared_workers_def)
qed

lemma states_after_mutex:
  "map m_OnNewManager (states_after cs (s\<lparr>m_TaskWorkersMutex := x\<rparr>)) =
   map m_OnNewManager (states_after cs s)"
  by (induction cs arbitrary: s) (auto simp: exec_stmt_mutex split: sum.splits)

lemma grow_binding:
  "grow me env m count i s = (r, s') \<Longrightarrow>
   m_OnManagerActivation s' = m_OnManagerActivation s \<and> m_OnNewManager s' = m_OnNewManager s"
proof (induction me env m count i s rule: grow.induct)
  case (1 me env m count i s)
  show ?case
  proof (cases "i < count")
    case False
    with "1.prems" show ?thesis by (subst (asm) grow.simps) simp
  next
    case True
    show ?thesis
    proof (cases "CreateThread env m i")
      case (Inl msg)
      with True "1.prems" show ?thesis by (subst (asm) grow.simps) simp
    next
      case (Inr th)
      with True "1.prems" have "grow me env m count (Suc i)
          ((touch me 57 s)\<lparr>m_TaskWorkers := m_TaskWorkers s @ [Some th]\<rparr>) = (r, s')"
        by (subst (asm) grow.simps) simp
      from "1.IH"[OF True Inr this] show ?thesis by simp
    qed
  qed
qed

lemma shrink_round_binding:
  "shrink_round me env s = Inr s' \<Longrightarrow>
   m_OnManagerActivation s' = m_OnManagerActivation s \<and> m_OnNewManager s' = m_OnNewManager s"
  by (auto simp: shrink_round_def shrink_mark_def shrink_erase_def unlock_workers_def
      lock_queue_def Let_def split: sum.splits if_splits option.splits)

lemma shrink_binding:
  "shrink me env count s = Inr s' \<Longrightarrow>
   m_OnManagerActivation s' = m_OnManagerActivation s \<and> m_OnNewManager s' = m_OnNewManager s"
proof (induction me env count s rule: shrink.induct)
  case (1 me env count s)
  show ?case
  proof (cases "count < length (m_TaskWorkers s)")
    case False
    with "1.prems" show ?thesis by (subst (asm) shrink.simps) auto
  next
    case True
    with "1.prems" obtain s1 where round: "shrink_round me env (touch me 63 s) = Inr s1"
      and rest: "shrink me env count s1 = Inr s'"
      by (subst (asm) shrink.simps) (auto split: sum.splits)
    from "1.IH"[OF True round rest] shrink_round_binding[OF round] show ?thesis by simp
  qed
qed

lemma SetWorkerCount_binding:
  assumes "SetWorkerCount me env count s = Inr (r, s')"
  shows "m_OnManagerActivation s' = m_OnManagerActivation s \<and> m_OnNewManager s' = m_OnNewManager s"
proof -
  from assms obtain s1 where l: "lock_workers me s = Inr s1"
    by (auto simp: SetWorkerCount_def split: sum.splits)
  then have s1: "m_OnManagerActivation s1 = m_OnManagerActivation s"
    "m_OnNewManager s1 = m_OnNewManager s"
    by (auto simp: lock_workers_def split: if_splits)
  from assms l show ?thesis
    using s1
    by (auto simp: SetWorkerCount_def unlock_workers_def
        split: sum.splits if_splits prod.splits dest: grow_binding shrink_binding)
qed

lemma Create_bound:
  assumes "Create me env threadMgr workerCount allowGrowth = Inr s"
  shows "Bound s \<and> \<not> Unbound s"
proof -
  from assms obtain m where m: "threadMgr = Some m"
    by (cases threadMgr) (auto simp: Create_def expired_def fresh_scheduler_def Let_def)
  from assms obtain r s1 where
    "SetWorkerCount me env workerCount
       ((fresh_scheduler threadMgr)\<lparr>m_OnManagerActivation := threadMgr\<rparr>) = Inr (r, s1)"
    and s: "s = s1\<lparr>m_AllowGrowth := allowGrowth\<rparr>"
    by (auto simp: Create_def Let_def split: if_splits sum.splits)
  from SetWorkerCount_binding[OF this(1)] s m show ?thesis
    by (simp add: Bound_def Unbound_def fresh_scheduler_def)
qed

lemma exec_stmts_OnNewManager:
  "exec_stmts (OnNewManager_body env newInterface) s = Inr s' \<Longrightarrow>
   \<not> (Bound s \<and> Unbound s) \<Longrightarrow> \<not> (Bound s' \<and> Unbound s')"
  by (auto simp: OnNewManager_body_def Bound_def Unbound_def split: option.splits if_splits)

lemma exec_stmts_OnManagerActivation:
  "exec_stmts (OnManagerActivation_body active oldInterface newInterface) s = Inr s' \<Longrightarrow>
   Bound s \<Longrightarrow> \<not> Unbound s \<Longrightarrow> \<not> (Bound s' \<and> Unbound s')"
  by (auto simp: OnManagerActivation_body_def Bound_def Unbound_def
      split: option.splits if_splits)

lemma under_shared_lock_returns:
  assumes "under_shared_lock me body s = Inr s'"
  shows "writer (m_TaskWorkersMutex s) = None"
  using assms
  by (auto simp: under_shared_lock_def lock_shared_workers_def split: sum.splits if_splits)

lemma SetWorkerCount_shrinks_by_one:
  assumes "SetWorkerCount me env count s = Inr (r, s')" "count < length (m_TaskWorkers s)"
  shows "length (m_TaskWorkers s) = Suc count"
proof -
  from assms(1) obtain s1 where l: "lock_workers me s = Inr s1"
    by (auto simp: SetWorkerCount_def split: sum.splits)
  then have same: "m_TaskWorkers s1 = m_TaskWorkers s"
    and held: "writer (m_TaskWorkersMutex s1) = Some me"
    by (auto simp: lock_workers_def split: if_splits)
  with assms l have "shrink me env count s1 = Inr s'"
    by (auto simp: SetWorkerCount_def split: sum.splits if_splits)
  from shrink_by_one[OF this] assms(2) same show ?thesis by simp
qed

lemma Stop_returns_small_pool:
  assumes "Stop me env s = Inr s'"
  shows "length (m_TaskWorkers s) \<le> 1"
proof (rule ccontr)
  assume "\<not> length (m_TaskWorkers s) \<le> 1"
  then have big: "0 < length (m_TaskWorkers s)" "length (m_TaskWorkers s) \<noteq> Suc 0" by auto
  from assms obtain r s1 where "SetWorkerCount me env 0 s = Inr (r, s1)"
    by (auto simp: Stop_def split: sum.splits)
  from SetWorkerCount_shrinks_by_one[OF this big(1)] big(2) show False by simp
qed

lemma join_loop_terminates: "tryjoin (i + k) \<Longrightarrow> \<exists>n. join_loop tryjoin i = Some n"
proof (induction k arbitrary: i)
  case 0
  then show ?case by (subst join_loop.simps) simp
next
  case (Suc k)
  from Suc.prems have "tryjoin (Suc i + k)" by simp
  from Suc.IH[OF this] show ?case by (subst join_loop.simps) simp
qed

lemma drain_Nil: "drain [] s = s"
  by (simp add: drain_def)

lemma drain_Cons: "drain (p # ps) s = drain ps (Destroy p (run_task p s))"
  by (simp add: drain_def)

lemma drain_effect:
  "distinct ps \<Longrightarrow> \<forall>p\<in>set ps. storage s p \<noteq> None \<Longrightarrow>
   drain ps s = s\<lparr>executed := executed s @ map (\<lambda>p. the (storage s p)) ps,
                  storage := (\<lambda>p. if p \<in> set ps then None else storage s p),
                  allocated := allocated s - set ps\<rparr>"
proof (induction ps arbitrary: s)
  case Nil
  then show ?case by (simp add: drain_Nil)
next
  case (Cons p ps)
  let ?s = "Destroy p (run_task p s)"
  from Cons.prems obtain t where t: "storage s p = Some t" by auto
  have s1: "?s = s\<lparr>executed := executed s @ [t], storage := (storage s)(p := None),
                  allocated := allocated s - {p}\<rparr>"
    by (simp add: Destroy_def Dealloc_def run_task_def t)
  have "distinct ps" "\<forall>q\<in>set ps. storage ?s q \<noteq> None"
    using Cons.prems by (auto simp: s1)
  from Cons.IH[OF this] have "drain ps ?s =
      ?s\<lparr>executed := executed ?s @ map (\<lambda>p. the (storage ?s p)) ps,
         storage := (\<lambda>q. if q \<in> set ps then None else storage ?s q),
         allocated := allocated ?s - set ps\<rparr>" .
  moreover have "map (\<lambda>q. the (storage ?s q)) ps = map (\<lambda>q. the (storage s q)) ps"
    using Cons.prems by (auto simp: s1)
  moreover have "(\<lambda>q. if q \<in> set ps then None else storage ?s q)
      = (\<lambda>q. if q \<in> set (p # ps) then None else storage s q)"
    by (auto simp: s1)
  moreover have "allocated ?s - set ps = allocated s - set (p # ps)"
    by (auto simp: s1)
  ultimately show ?case
    by (simp add: drain_Cons s1 t)
qed

lemma fold_Dealloc: "fold Dealloc ps s = s\<lparr>allocated := allocated s - set ps\<rparr>"
proof (induction ps arbitrary: s)
  case Nil
  show ?case by simp
next
  case (Cons p ps)
  have "allocated s - {p} - set ps = allocated s - set (p # ps)"
    by auto
  then show ?case
    by (simp only: fold_simps Cons.IH) (simp add: Dealloc_def)
qed

lemma SetWorkerCount_zero_small_pool:
  assumes free: "pool_lock_free s" "m_TaskQueueMutex s = None"
    and small: "m_TaskWorkers s = [] \<or> (\<exists>t k. m_TaskWorkers s = [Some t] \<and> TryJoin env t k)"
  shows "SetWorkerCount me env 0 s =
     Inr (Success, if m_TaskWorkers s = [] then s
                   else s\<lparr>m_TaskWorkers := [], m_TaskQueueMutex := Some me,
                          unguarded := unguarded s @ [82, 63]\<rparr>)"
proof (cases "m_TaskWorkers s = []")
  case True
  with free show ?thesis
    by (simp add: SetWorkerCount_def pool_lock_free_def lock_workers_def unlock_workers_def)
next
  case False
  with small obtain t k where t: "m_TaskWorkers s = [Some t]" "TryJoin env t k" by auto
  from join_loop_terminates[of "TryJoin env t" 0 k] t(2)
  obtain n where "join_loop (TryJoin env t) 0 = Some n" by auto
  with free t(1) show ?thesis
    by (simp add: SetWorkerCount_def shrink.simps shrink_round_def shrink_mark_def
        shrink_join_def shrink_erase_def erase_at_def pool_lock_free_def lock_workers_def
        unlock_workers_def lock_queue_def touch_def holds_workers_def)
qed

lemma Stop_after_SetWorkerCount:
  assumes r: "SetWorkerCount me env 0 s = Inr (res, s1)"
    and same: "m_TaskQueue s1 = m_TaskQueue s" "storage s1 = storage s"
      "executed s1 = executed s" "allocated s1 = allocated s"
      "m_FreeTaskPool s1 = m_FreeTaskPool s" "m_TaskWorkers s1 = []"
    and queue: "distinct (m_TaskQueue s)" "\<forall>p\<in>set (m_TaskQueue s). storage s p \<noteq> None"
  shows "\<exists>s'. Stop me env s = Inr s'
     \<and> executed s' = executed s @ map (\<lambda>p. the (storage s p)) (m_TaskQueue s)
     \<and> m_TaskQueue s' = [] \<and> m_TaskWorkers s' = []
     \<and> allocated s' = allocated s - set (m_TaskQueue s) - set (m_FreeTaskPool s)"
proof -
  have "drain (m_TaskQueue s1) s1 =
      s1\<lparr>executed := executed s1 @ map (\<lambda>p. the (storage s1 p)) (m_TaskQueue s1),
          storage := (\<lambda>p. if p \<in> set (m_TaskQueue s1) then None else storage s1 p),
          allocated := allocated s1 - set (m_TaskQueue s1)\<rparr>"
    using queue by (intro drain_effect) (simp_all add: same)
  then have d: "drain (m_TaskQueue s) s1 =
      s1\<lparr>executed := executed s @ map (\<lambda>p. the (storage s p)) (m_TaskQueue s),
          storage := (\<lambda>p. if p \<in> set (m_TaskQueue s) then None else storage s1 p),
          allocated := allocated s - set (m_TaskQueue s)\<rparr>"
    by (simp add: same)
  show ?thesis
    by (simp add: Stop_def r d fold_Dealloc same Let_def)
qed

lemma Stop_small_pool:
  assumes free: "pool_lock_free s" "m_TaskQueueMutex s = None"
    and small: "m_TaskWorkers s = [] \<or> (\<exists>t k. m_TaskWorkers s = [Some t] \<and> TryJoin env t k)"
    and queue: "distinct (m_TaskQueue s)" "\<forall>p\<in>set (m_TaskQueue s). storage s p \<noteq> None"
  shows "\<exists>s'. Stop me env s = Inr s'
     \<and> executed s' = executed s @ map (\<lambda>p. the (storage s p)) (m_TaskQueue s)
     \<and> m_TaskQueue s' = [] \<and> m_TaskWorkers s' = []
     \<and> allocated s' = allocated s - set (m_TaskQueue s) - set (m_FreeTaskPool s)"
proof -
  let ?s1 = "if m_TaskWorkers s = [] then s
             else s\<lparr>m_TaskWorkers := [], m_TaskQueueMutex := Some me,
                    unguarded := unguarded s @ [82, 63]\<rparr>"
  have r: "SetWorkerCount me env 0 s = Inr (Success, ?s1)"
    using free small by (rule SetWorkerCount_zero_small_pool)
  show ?thesis
    using queue by (intro Stop_after_SetWorkerCount[OF r]) simp_all
qed

lemma CanWorkerContinueWorking_result:
  "CanWorkerContinueWorking me workerID s = Inr (b, s') \<Longrightarrow> b = present workerID s \<and> s' = s"
  by (auto simp: CanWorkerContinueWorking_def lock_shared_workers_def unlock_shared_workers_def
      present_def split: if_splits)

lemma wake_leads_to_check:
  "WorkerFn_step w i Waiting s = Inr (pc, s') \<Longrightarrow> pc = AtCheck"
  by (auto split: sum.splits)

lemma check_reads_pool:
  "WorkerFn_step w i AtCheck s = Inr (pc, s') \<Longrightarrow> pc = AtTest (present i s)"
  by (auto split: sum.splits dest: CanWorkerContinueWorking_result)

lemma leaves_on_failed_check:
  "WorkerFn_step w i pc0 s = Inr (pc, s') \<Longrightarrow>
   (pc = Terminated) = (pc0 = AtTest False \<or> pc0 = Terminated)"
proof (cases pc0)
  case (Executing task)
  assume "WorkerFn_step w i pc0 s = Inr (pc, s')"
  with Executing show ?thesis
    by (cases task) (auto split: sum.splits)
qed (auto split: sum.splits if_splits)

text \<open>The worker steps that are not past a check change neither the queue nor the log.\<close>

lemma WorkerFn_step_before_check:
  assumes "WorkerFn_step w i pc s = Inr (pc', s')" "\<not> past_check pc" "\<not> present i s"
  shows "\<not> past_check pc' \<and> m_TaskQueue s' = m_TaskQueue s \<and> executed s' = executed s
    \<and> m_TaskWorkers s' = m_TaskWorkers s"
proof (cases pc)
  case AtCheck
  with assms show ?thesis
    by (auto split: sum.splits dest: CanWorkerContinueWorking_result)
next
  case (AtTest canWork)
  with assms show ?thesis
    by (auto simp: unlock_queue_def split: sum.splits if_splits)
qed (use assms in \<open>auto simp: lock_queue_def split: sum.splits option.splits\<close>)

lemma AddTask_begin_fields:
  "AddTask_begin c task s = Inr (r, s') \<Longrightarrow>
   m_TaskQueue s' = m_TaskQueue s \<and> executed s' = executed s
   \<and> m_TaskWorkers s' = m_TaskWorkers s"
  by (auto simp: AddTask_begin_def acquire_slot_def AllocT_def lock_shared_workers_def
      unlock_shared_workers_def lock_free_pool_def unlock_free_pool_def
      AreThereAnyAvailableWorker_def split: sum.splits if_splits option.splits)

lemma AddTask_end_fields:
  "AddTask_end c p s = Inr s' \<Longrightarrow>
   m_TaskQueue s' = m_TaskQueue s @ [p] \<and> executed s' = executed s
   \<and> m_TaskWorkers s' = m_TaskWorkers s \<and> storage s' = storage s
   \<and> m_FreeTaskPool s' = m_FreeTaskPool s \<and> next_block s' = next_block s"
  by (auto simp: AddTask_end_def enqueue_def lock_queue_def unlock_queue_def
      unlock_shared_workers_def split: sum.splits if_splits option.splits)

lemma begin_shrink_fields:
  "begin_shrink r s = Inr (th, sz, s') \<Longrightarrow>
   m_TaskQueue s' = m_TaskQueue s \<and> executed s' = executed s \<and> storage s' = storage s
   \<and> m_FreeTaskPool s' = m_FreeTaskPool s \<and> next_block s' = next_block s
   \<and> m_TaskWorkers s' = (m_TaskWorkers s)[length (m_TaskWorkers s) - 1 := None]"
  by (auto simp: begin_shrink_def shrink_mark_def lock_workers_def unlock_workers_def Let_def
      split: sum.splits if_splits)

lemma present_after_mark:
  "\<not> present i s \<Longrightarrow> m_TaskWorkers s' = (m_TaskWorkers s)[k := None] \<Longrightarrow> \<not> present i s'"
  by (cases "i = k") (auto simp: present_def)

lemma step_before_check:
  assumes "\<not> present i (sched sys)" "\<not> past_check (worker sys)"
  shows "\<not> present i (sched (step w i c e sys)) \<and> \<not> past_check (worker (step w i c e sys))
    \<and> executed (sched (step w i c e sys)) = executed (sched sys)
    \<and> (\<exists>ps. m_TaskQueue (sched (step w i c e sys)) = m_TaskQueue (sched sys) @ ps)"
proof (cases e)
  case Work
  show ?thesis
  proof (cases "WorkerFn_step w i (worker sys) (sched sys)")
    case (Inl f)
    with Work assms show ?thesis by simp
  next
    case (Inr r)
    obtain pc' s' where r: "r = (pc', s')" by (cases r)
    from WorkerFn_step_before_check[OF Inr[unfolded r] assms(2,1)] Work Inr r assms(1)
    show ?thesis by (simp add: present_def)
  qed
next
  case (Submit task)
  show ?thesis
  proof (cases "client sys")
    case (Some a)
    with Submit assms show ?thesis by simp
  next
    case None
    show ?thesis
    proof (cases "AddTask_begin c task (sched sys)")
      case (Inl f)
      with Submit None assms show ?thesis by simp
    next
      case (Inr r)
      obtain q s' where r: "r = (q, s')" by (cases r)
      from AddTask_begin_fields[OF Inr[unfolded r]] Submit None Inr r assms
      show ?thesis by (cases q) (simp_all add: present_def)
    qed
  qed
next
  case Finish
  show ?thesis
  proof (cases "client sys")
    case None
    with Finish assms show ?thesis by simp
  next
    case (Some a)
    obtain p t where a: "a = (p, t)" by (cases a)
    show ?thesis
    proof (cases "AddTask_end c p (sched sys)")
      case (Inl f)
      with Finish Some a assms show ?thesis by simp
    next
      case (Inr s')
      from AddTask_end_fields[OF Inr] Finish Some a Inr assms
      show ?thesis by (simp add: present_def)
    qed
  qed
next
  case (Shrink r count)
  show ?thesis
  proof (cases "length (m_TaskWorkers (sched sys)) > count")
    case False
    with Shrink assms show ?thesis by simp
  next
    case True
    show ?thesis
    proof (cases "begin_shrink r (sched sys)")
      case (Inl f)
      with Shrink True assms show ?thesis by simp
    next
      case (Inr x)
      obtain th sz s' where x: "x = (th, sz, s')" by (cases x)
      from begin_shrink_fields[OF Inr[unfolded x]]
      have f: "m_TaskQueue s' = m_TaskQueue (sched sys)" "executed s' = executed (sched sys)"
        "m_TaskWorkers s' = (m_TaskWorkers (sched sys))[length (m_TaskWorkers (sched sys)) - 1 := None]"
        by simp_all
      from present_after_mark[OF assms(1) f(3)] f(1,2) Shrink True Inr x assms(2)
      show ?thesis by simp
    qed
  qed
qed

lemma run_before_check:
  "\<not> present i (sched sys) \<Longrightarrow> \<not> past_check (worker sys) \<Longrightarrow>
   \<not> present i (sched (run w i c evs sys)) \<and> \<not> past_check (worker (run w i c evs sys))
   \<and> executed (sched (run w i c evs sys)) = executed (sched sys)
   \<and> (\<exists>ps. m_TaskQueue (sched (run w i c evs sys)) = m_TaskQueue (sched sys) @ ps)"
proof (induction evs arbitrary: sys)
  case Nil
  then show ?case by simp
next
  case (Cons e evs)
  from step_before_check[OF Cons.prems, of w c e]
  have s: "\<not> present i (sched (step w i c e sys))" "\<not> past_check (worker (step w i c e sys))"
    "executed (sched (step w i c e sys)) = executed (sched sys)"
    and q: "\<exists>ps. m_TaskQueue (sched (step w i c e sys)) = m_TaskQueue (sched sys) @ ps"
    by auto
  from Cons.IH[OF s(1,2)] s(3) q show ?case
    by auto
qed

lemma absent_worker_leaves:
  assumes "\<not> present i s" "writer (m_TaskWorkersMutex s) = None" "m_TaskQueueMutex s = None"
    and "pc0 = Waiting \<or> pc0 = AtLock"
  shows "worker (run w i c [Work, Work, Work]
            \<lparr>sched = s, worker = pc0, client = cl, accepted = acc\<rparr>) = Terminated"
  using assms
  by (auto simp: lock_queue_def unlock_queue_def CanWorkerContinueWorking_def
      lock_shared_workers_def unlock_shared_workers_def present_def)

text \<open>What a step of the worker does to the queue, the storage and the log.\<close>

lemma WorkerFn_step_quiet:
  assumes "WorkerFn_step w i pc s = Inr (pc', s')" "pc \<noteq> AtTest True"
    "\<forall>p. pc \<noteq> Executing (Some p)"
  shows "m_TaskQueue s' = m_TaskQueue s \<and> storage s' = storage s
    \<and> m_FreeTaskPool s' = m_FreeTaskPool s \<and> next_block s' = next_block s
    \<and> executed s' = executed s \<and> (\<forall>p. pc' \<noteq> Executing (Some p))"
proof (cases pc)
  case AtCheck
  with assms show ?thesis
    by (auto split: sum.splits dest: CanWorkerContinueWorking_result)
next
  case (AtTest canWork)
  with assms show ?thesis
    by (auto simp: unlock_queue_def split: sum.splits if_splits)
next
  case (Executing task)
  with assms show ?thesis
    by (cases task) auto
qed (use assms in \<open>auto simp: lock_queue_def split: sum.splits option.splits\<close>)

lemma WorkerFn_step_test:
  assumes "WorkerFn_step w i (AtTest True) s = Inr (pc', s')"
  shows "storage s' = storage s \<and> m_FreeTaskPool s' = m_FreeTaskPool s
    \<and> next_block s' = next_block s \<and> executed s' = executed s
    \<and> (if m_TaskQueue s = [] then pc' = Waiting \<and> m_TaskQueue s' = []
        else pc' = Executing (Some (hd (m_TaskQueue s))) \<and> m_TaskQueue s' = tl (m_TaskQueue s))"
  using assms by (auto simp: unlock_queue_def split: sum.splits if_splits)

lemma WorkerFn_step_execute:
  assumes "WorkerFn_step w i (Executing (Some p)) s = Inr (pc', s')"
  shows "pc' = AtLock \<and> m_TaskQueue s' = m_TaskQueue s \<and> storage s' = (storage s)(p := None)
    \<and> m_FreeTaskPool s' = m_FreeTaskPool s @ [p] \<and> next_block s' = next_block s
    \<and> executed s' = executed s @ (case storage s p of None \<Rightarrow> [] | Some t \<Rightarrow> [t])"
  using assms
  by (auto simp: release_slot_def run_task_def lock_free_pool_def unlock_free_pool_def
      split: sum.splits if_splits option.splits)

lemma AddTask_begin_rejected:
  "AddTask_begin c task s = Inr (None, s') \<Longrightarrow>
   m_TaskQueue s' = m_TaskQueue s \<and> storage s' = storage s
   \<and> m_FreeTaskPool s' = m_FreeTaskPool s \<and> next_block s' = next_block s
   \<and> executed s' = executed s"
  by (auto simp: AddTask_begin_def acquire_slot_def AllocT_def lock_shared_workers_def
      unlock_shared_workers_def lock_free_pool_def unlock_free_pool_def
      AreThereAnyAvailableWorker_def split: sum.splits if_splits option.splits)

lemma AddTask_begin_slot:
  "AddTask_begin c task s = Inr (Some p, s') \<Longrightarrow>
   m_TaskQueue s' = m_TaskQueue s \<and> storage s' = (storage s)(p \<mapsto> task)
   \<and> executed s' = executed s
   \<and> (if m_FreeTaskPool s = []
       then p = next_block s \<and> next_block s' = Suc p \<and> m_FreeTaskPool s' = []
       else p = last (m_FreeTaskPool s) \<and> next_block s' = next_block s
            \<and> m_FreeTaskPool s' = butlast (m_FreeTaskPool s))"
  by (auto simp: AddTask_begin_def acquire_slot_def AllocT_def lock_shared_workers_def
      unlock_shared_workers_def lock_free_pool_def unlock_free_pool_def
      AreThereAnyAvailableWorker_def split: sum.splits if_splits option.splits)

lemma in_flight_none: "\<forall>p. worker sys \<noteq> Executing (Some p) \<Longrightarrow> in_flight sys = []"
  by (auto simp: in_flight_def split: wpc.splits option.splits)

lemma in_flight_some: "worker sys = Executing (Some p) \<Longrightarrow> in_flight sys = [p]"
  by (simp add: in_flight_def)

lemma in_flight_update [simp]:
  "in_flight (sys\<lparr>sched := s\<rparr>) = in_flight sys"
  "in_hand (sys\<lparr>sched := s\<rparr>) = in_hand sys"
  "in_hand (sys\<lparr>worker := pc\<rparr>) = in_hand sys"
  by (simp_all add: in_flight_def in_hand_def)

lemma step_Work_inv:
  assumes inv: "fifo_inv h0 sys"
  shows "fifo_inv h0 (step w i c Work sys)"
proof (cases "WorkerFn_step w i (worker sys) (sched sys)")
  case (Inl f)
  with inv show ?thesis by simp
next
  case (Inr r)
  obtain pc' s' where r: "r = (pc', s')" by (cases r)
  let ?sys = "sys\<lparr>sched := s', worker := pc'\<rparr>"
  have st: "step w i c Work sys = ?sys"
    by (simp add: Inr r)
  consider (test) "worker sys = AtTest True"
    | (exec) p where "worker sys = Executing (Some p)"
    | (quiet) "worker sys \<noteq> AtTest True" "\<forall>p. worker sys \<noteq> Executing (Some p)"
    by blast
  then have "fifo_inv h0 ?sys"
  proof cases
    case test
    from WorkerFn_step_test[OF Inr[unfolded r test]]
    have f: "storage s' = storage (sched sys)" "m_FreeTaskPool s' = m_FreeTaskPool (sched sys)"
      "next_block s' = next_block (sched sys)" "executed s' = executed (sched sys)"
      and q: "if m_TaskQueue (sched sys) = [] then pc' = Waiting \<and> m_TaskQueue s' = []
        else pc' = Executing (Some (hd (m_TaskQueue (sched sys))))
             \<and> m_TaskQueue s' = tl (m_TaskQueue (sched sys))"
      by simp_all
    have old: "in_flight sys = []"
      using test by (simp add: in_flight_def)
    show ?thesis
    proof (cases "m_TaskQueue (sched sys)")
      case Nil
      with q have "pc' = Waiting" "m_TaskQueue s' = []" by simp_all
      then have new: "in_flight ?sys = []"
        by (simp add: in_flight_def)
      from inv Nil \<open>m_TaskQueue s' = []\<close> show ?thesis
        by (simp add: fifo_inv_def blocks_apart_def owned_def history_def old new f)
    next
      case (Cons p ps)
      with q have "pc' = Executing (Some p)" "m_TaskQueue s' = ps" by simp_all
      then have new: "in_flight ?sys = [p]"
        by (simp add: in_flight_def)
      from inv Cons \<open>m_TaskQueue s' = ps\<close> show ?thesis
        by (simp add: fifo_inv_def blocks_apart_def owned_def history_def old new f)
    qed
  next
    case (exec p)
    from WorkerFn_step_execute[OF Inr[unfolded r exec]]
    have f: "pc' = AtLock" "m_TaskQueue s' = m_TaskQueue (sched sys)"
      "storage s' = (storage (sched sys))(p := None)"
      "m_FreeTaskPool s' = m_FreeTaskPool (sched sys) @ [p]"
      "next_block s' = next_block (sched sys)"
      "executed s' = executed (sched sys)
         @ (case storage (sched sys) p of None \<Rightarrow> [] | Some t \<Rightarrow> [t])"
      by simp_all
    have old: "in_flight sys = [p]"
      using exec by (simp add: in_flight_def)
    from inv old obtain t where t: "storage (sched sys) p = Some t"
      by (auto simp: fifo_inv_def blocks_apart_def)
    from inv old have notin: "p \<notin> set (m_TaskQueue (sched sys))" "p \<notin> set (in_hand sys)"
      "p \<notin> set (m_FreeTaskPool (sched sys))"
      by (auto simp: fifo_inv_def blocks_apart_def owned_def)
    have same: "map ((storage (sched sys))(p := None)) (m_TaskQueue (sched sys))
        = map (storage (sched sys)) (m_TaskQueue (sched sys))"
      using notin(1) by (auto intro: map_cong)
    have new: "in_flight ?sys = []"
      by (simp add: in_flight_def f(1))
    have h: "history ?sys = history sys"
      by (simp add: history_def new old f(2-) t same)
    have cl: "holds_task ((storage (sched sys))(p := None)) (client sys)"
      using inv notin(2)
      by (auto simp: fifo_inv_def blocks_apart_def holds_task_def in_hand_def
          split: option.splits)
    have "blocks_apart ?sys"
      using inv old notin cl
      by (auto simp: fifo_inv_def blocks_apart_def owned_def new f(2-) list_all_iff)
    with inv h show ?thesis
      by (simp add: fifo_inv_def)
  next
    case quiet
    from WorkerFn_step_quiet[OF Inr[unfolded r] quiet]
    have f: "m_TaskQueue s' = m_TaskQueue (sched sys)" "storage s' = storage (sched sys)"
      "m_FreeTaskPool s' = m_FreeTaskPool (sched sys)" "next_block s' = next_block (sched sys)"
      "executed s' = executed (sched sys)" "\<forall>p. pc' \<noteq> Executing (Some p)"
      by simp_all
    have old: "in_flight sys = []"
      using quiet(2) by (rule in_flight_none)
    have new: "in_flight ?sys = []"
      using f(6) by (intro in_flight_none) simp
    from inv show ?thesis
      by (simp add: fifo_inv_def blocks_apart_def owned_def history_def old new f)
  qed
  then show ?thesis unfolding st .
qed

lemma step_Submit_inv:
  assumes inv: "fifo_inv h0 sys"
  shows "fifo_inv h0 (step w i c (Submit task) sys)"
proof (cases "client sys")
  case (Some a)
  with inv show ?thesis by simp
next
  case None
  then have hand: "in_hand sys = []"
    by (simp add: in_hand_def)
  show ?thesis
  proof (cases "AddTask_begin c task (sched sys)")
    case (Inl f)
    with None inv show ?thesis by simp
  next
    case (Inr r)
    obtain q s' where r: "r = (q, s')" by (cases r)
    show ?thesis
    proof (cases q)
      case no: None
      from AddTask_begin_rejected[OF Inr[unfolded r no]]
      have f: "m_TaskQueue s' = m_TaskQueue (sched sys)" "storage s' = storage (sched sys)"
        "m_FreeTaskPool s' = m_FreeTaskPool (sched sys)" "next_block s' = next_block (sched sys)"
        "executed s' = executed (sched sys)"
        by simp_all
      have st: "step w i c (Submit task) sys = sys\<lparr>sched := s'\<rparr>"
        by (simp add: None Inr r no)
      from inv show ?thesis
        unfolding st by (simp add: fifo_inv_def blocks_apart_def owned_def history_def f)
    next
      case (Some p)
      let ?sys = "sys\<lparr>sched := s', client := Some (p, task)\<rparr>"
      have st: "step w i c (Submit task) sys = ?sys"
        by (simp add: None Inr r Some)
      from AddTask_begin_slot[OF Inr[unfolded r Some]]
      have f: "m_TaskQueue s' = m_TaskQueue (sched sys)"
        "storage s' = (storage (sched sys))(p \<mapsto> task)" "executed s' = executed (sched sys)"
        and pool: "if m_FreeTaskPool (sched sys) = []
          then p = next_block (sched sys) \<and> next_block s' = Suc p \<and> m_FreeTaskPool s' = []
          else p = last (m_FreeTaskPool (sched sys)) \<and> next_block s' = next_block (sched sys)
               \<and> m_FreeTaskPool s' = butlast (m_FreeTaskPool (sched sys))"
        by simp_all
      have new_hand: "in_hand ?sys = [p]"
        by (simp add: in_hand_def)
      have fl: "in_flight ?sys = in_flight sys"
        by (simp add: in_flight_def)
      let ?busy = "in_flight sys @ m_TaskQueue (sched sys)"
      from inv have d: "distinct (?busy @ m_FreeTaskPool (sched sys))"
        and lt: "\<forall>x\<in>set (?busy @ m_FreeTaskPool (sched sys)). x < next_block (sched sys)"
        and full: "\<forall>x\<in>set ?busy. storage (sched sys) x \<noteq> None"
        by (simp_all add: fifo_inv_def blocks_apart_def owned_def hand list_all_iff)
      have fresh: "p \<notin> set ?busy \<and> p \<notin> set (m_FreeTaskPool s')
          \<and> distinct (m_FreeTaskPool s')
          \<and> set (m_FreeTaskPool s') \<subseteq> set (m_FreeTaskPool (sched sys))
          \<and> p < next_block s' \<and> next_block (sched sys) \<le> next_block s'"
      proof (cases "m_FreeTaskPool (sched sys) = []")
        case True
        with pool lt show ?thesis by auto
      next
        case False
        then obtain xs where xs: "m_FreeTaskPool (sched sys) = xs @ [p]"
          using pool by (metis append_butlast_last_id)
        with pool d lt show ?thesis by auto
      qed
      have same: "map ((storage (sched sys))(p \<mapsto> task)) ?busy = map (storage (sched sys)) ?busy"
        using fresh by (auto intro: map_cong)
      have h: "history ?sys = history sys"
        using same by (simp add: history_def fl f)
      have lt': "\<forall>x\<in>set (?busy @ m_FreeTaskPool s'). x < next_block s'"
      proof
        fix x
        assume "x \<in> set (?busy @ m_FreeTaskPool s')"
        with fresh have "x \<in> set (?busy @ m_FreeTaskPool (sched sys))"
          by auto
        with lt have "x < next_block (sched sys)"
          by blast
        with fresh show "x < next_block s'"
          by simp
      qed
      have d': "distinct (?busy @ m_FreeTaskPool s')"
        using d fresh by auto
      have full': "\<forall>x\<in>set ?busy. storage s' x \<noteq> None"
        using full by (simp add: f)
      have "blocks_apart ?sys"
        using d' lt' full' fresh
        by (simp add: blocks_apart_def owned_def new_hand fl f(1,3) holds_task_def list_all_iff)
          (simp add: f(2))
      with inv h show ?thesis
        unfolding st by (simp add: fifo_inv_def)
    qed
  qed
qed

lemma step_Finish_inv:
  assumes inv: "fifo_inv h0 sys"
  shows "fifo_inv h0 (step w i c Finish sys)"
proof (cases "client sys")
  case None
  with inv show ?thesis by simp
next
  case (Some a)
  obtain p t where a: "a = (p, t)" by (cases a)
  have hand: "in_hand sys = [p]"
    by (simp add: in_hand_def Some a)
  show ?thesis
  proof (cases "AddTask_end c p (sched sys)")
    case (Inl f)
    with Some a inv show ?thesis by simp
  next
    case (Inr s')
    let ?sys = "sys\<lparr>sched := s', client := None, accepted := accepted sys @ [t]\<rparr>"
    have st: "step w i c Finish sys = ?sys"
      by (simp add: Some a Inr)
    from AddTask_end_fields[OF Inr]
    have f: "m_TaskQueue s' = m_TaskQueue (sched sys) @ [p]" "executed s' = executed (sched sys)"
      "storage s' = storage (sched sys)" "m_FreeTaskPool s' = m_FreeTaskPool (sched sys)"
      "next_block s' = next_block (sched sys)"
      by simp_all
    have new_hand: "in_hand ?sys = []"
      by (simp add: in_hand_def)
    have fl: "in_flight ?sys = in_flight sys"
      by (simp add: in_flight_def)
    from inv have t: "storage (sched sys) p = Some t"
      by (simp add: fifo_inv_def blocks_apart_def holds_task_def Some a)
    have h: "history ?sys = h0 @ map Some (accepted ?sys)"
      using inv by (simp add: fifo_inv_def history_def fl f t)
    have "blocks_apart ?sys"
      using inv
      by (auto simp: fifo_inv_def blocks_apart_def owned_def new_hand hand fl f t
          holds_task_def list_all_iff)
    with h show ?thesis
      unfolding st by (simp add: fifo_inv_def)
  qed
qed

lemma step_Shrink_inv:
  assumes inv: "fifo_inv h0 sys"
  shows "fifo_inv h0 (step w i c (Shrink r count) sys)"
proof (cases "length (m_TaskWorkers (sched sys)) > count")
  case False
  with inv show ?thesis by simp
next
  case True
  show ?thesis
  proof (cases "begin_shrink r (sched sys)")
    case (Inl f)
    with True inv show ?thesis by simp
  next
    case (Inr x)
    obtain th sz s' where x: "x = (th, sz, s')" by (cases x)
    from begin_shrink_fields[OF Inr[unfolded x]]
    have f: "m_TaskQueue s' = m_TaskQueue (sched sys)" "executed s' = executed (sched sys)"
      "storage s' = storage (sched sys)" "m_FreeTaskPool s' = m_FreeTaskPool (sched sys)"
      "next_block s' = next_block (sched sys)"
      by simp_all
    have st: "step w i c (Shrink r count) sys = sys\<lparr>sched := s'\<rparr>"
      by (simp add: True Inr x)
    from inv show ?thesis
      unfolding st by (simp add: fifo_inv_def blocks_apart_def owned_def history_def f)
  qed
qed

lemma step_inv: "fifo_inv h0 sys \<Longrightarrow> fifo_inv h0 (step w i c e sys)"
  by (cases e) (simp_all only: step_Work_inv step_Submit_inv step_Finish_inv step_Shrink_inv)

lemma run_inv: "fifo_inv h0 sys \<Longrightarrow> fifo_inv h0 (run w i c evs sys)"
  by (induction evs arbitrary: sys) (simp_all add: step_inv)

lemma prefix_of_history:
  assumes "map Some acc = map Some ex @ xs"
  shows "\<exists>rest. acc = ex @ rest"
proof -
  from assms have "take (length ex) (map Some acc) = map Some ex"
    by simp
  then have "map Some (take (length ex) acc) = map Some ex"
    by (simp add: take_map)
  then have "take (length ex) acc = ex"
    by (simp add: map_eq_conv inj_map_eq_map)
  then have "acc = ex @ drop (length ex) acc"
    by (metis append_take_drop_id)
  then show ?thesis ..
qed

lemma interleaved_run:
  "executed (sched (run 4 0 2 interleaved idle_system)) = [7, 8, 9]
   \<and> accepted (run 4 0 2 interleaved idle_system) = [7, 8, 9]
   \<and> m_TaskQueue (sched (run 4 0 2 interleaved idle_system)) = []
   \<and> m_FreeTaskPool (sched (run 4 0 2 interleaved idle_system)) = [1, 0]"
  by (simp add: interleaved_def idle_system_def bound_scheduler_def fresh_scheduler_def
      AddTask_begin_def AddTask_end_def acquire_slot_def enqueue_def AllocT_def
      AreThereAnyAvailableWorker_def present_def
      lock_queue_def unlock_queue_def CanWorkerContinueWorking_def lock_shared_workers_def
      unlock_shared_workers_def release_slot_def run_task_def lock_free_pool_def
      unlock_free_pool_def)

text \<open>
  A task-queue mutex that stays held stalls the scheduler: a worker that waits or is at
  the top of its loop never gets further, and no submission completes.
\<close>

lemma AddTask_begin_queue_mutex:
  "AddTask_begin c task s = Inr (r, s') \<Longrightarrow> m_TaskQueueMutex s' = m_TaskQueueMutex s"
  by (auto simp: AddTask_begin_def acquire_slot_def AllocT_def lock_shared_workers_def
      unlock_shared_workers_def lock_free_pool_def unlock_free_pool_def
      AreThereAnyAvailableWorker_def split: sum.splits if_splits option.splits)

lemma begin_shrink_queue_mutex:
  "begin_shrink r s = Inr (th, sz, s') \<Longrightarrow> m_TaskQueueMutex s' = m_TaskQueueMutex s"
  by (auto simp: begin_shrink_def shrink_mark_def lock_workers_def unlock_workers_def Let_def
      split: sum.splits if_splits)

lemma held_queue_mutex_stalls_step:
  assumes "m_TaskQueueMutex (sched sys) = Some r" "worker sys = AtLock \<or> worker sys = Waiting"
  shows "worker (step w i c e sys) = worker sys
    \<and> m_TaskQueueMutex (sched (step w i c e sys)) = Some r
    \<and> m_TaskQueue (sched (step w i c e sys)) = m_TaskQueue (sched sys)
    \<and> executed (sched (step w i c e sys)) = executed (sched sys)
    \<and> accepted (step w i c e sys) = accepted sys"
proof (cases e)
  case Work
  with assms show ?thesis
    by (auto simp: lock_queue_def)
next
  case (Submit task)
  show ?thesis
  proof (cases "client sys")
    case (Some a)
    with Submit assms show ?thesis by simp
  next
    case None
    show ?thesis
    proof (cases "AddTask_begin c task (sched sys)")
      case (Inl f)
      with Submit None assms show ?thesis by simp
    next
      case (Inr x)
      obtain q s' where x: "x = (q, s')" by (cases x)
      from AddTask_begin_queue_mutex[OF Inr[unfolded x]] AddTask_begin_fields[OF Inr[unfolded x]]
        Submit None Inr x assms
      show ?thesis by (cases q) simp_all
    qed
  qed
next
  case Finish
  with assms show ?thesis
    by (auto simp: AddTask_end_def enqueue_def lock_queue_def split: option.splits)
next
  case (Shrink r' count)
  show ?thesis
  proof (cases "length (m_TaskWorkers (sched sys)) > count")
    case False
    with Shrink assms show ?thesis by simp
  next
    case True
    show ?thesis
    proof (cases "begin_shrink r' (sched sys)")
      case (Inl f)
      with Shrink True assms show ?thesis by simp
    next
      case (Inr x)
      obtain th sz s' where x: "x = (th, sz, s')" by (cases x)
      from begin_shrink_queue_mutex[OF Inr[unfolded x]] begin_shrink_fields[OF Inr[unfolded x]]
        Shrink True Inr x assms
      show ?thesis by simp
    qed
  qed
qed

lemma held_queue_mutex_stalls:
  "m_TaskQueueMutex (sched sys) = Some r \<Longrightarrow> worker sys = AtLock \<or> worker sys = Waiting \<Longrightarrow>
   worker (run w i c evs sys) = worker sys
   \<and> m_TaskQueue (sched (run w i c evs sys)) = m_TaskQueue (sched sys)
   \<and> executed (sched (run w i c evs sys)) = executed (sched sys)
   \<and> accepted (run w i c evs sys) = accepted sys"
proof (induction evs arbitrary: sys)
  case Nil
  then show ?case by simp
next
  case (Cons e evs)
  from held_queue_mutex_stalls_step[OF Cons.prems, of w i c e]
  have s: "m_TaskQueueMutex (sched (step w i c e sys)) = Some r"
    "worker (step w i c e sys) = AtLock \<or> worker (step w i c e sys) = Waiting"
    and same: "worker (step w i c e sys) = worker sys"
      "m_TaskQueue (sched (step w i c e sys)) = m_TaskQueue (sched sys)"
      "executed (sched (step w i c e sys)) = executed (sched sys)"
      "accepted (step w i c e sys) = accepted sys"
    using Cons.prems(2) by auto
  from Cons.IH[OF s] same show ?case
    by simp
qed

text \<open>
  Every round of the shrink loop that returns leaves the task-queue mutex held by the
  caller, and so does every shrinking \<^verbatim>\<open>SetWorkerCount\<close> that returns.
\<close>

lemma shrink_round_holds_queue_mutex:
  "shrink_round me env s = Inr s' \<Longrightarrow> m_TaskQueueMutex s' = Some me"
  by (auto simp: shrink_round_def shrink_mark_def shrink_erase_def unlock_workers_def
      lock_queue_def Let_def split: sum.splits if_splits option.splits)

lemma SetWorkerCount_shrink_holds_queue_mutex:
  assumes "SetWorkerCount me env count s = Inr (r, s')" "count < length (m_TaskWorkers s)"
  shows "m_TaskQueueMutex s' = Some me \<and> r = Success"
proof -
  from assms(1) obtain s1 where l: "lock_workers me s = Inr s1"
    by (auto simp: SetWorkerCount_def split: sum.splits)
  then have same: "m_TaskWorkers s1 = m_TaskWorkers s"
    and held: "writer (m_TaskWorkersMutex s1) = Some me"
    by (auto simp: lock_workers_def split: if_splits)
  with assms l have sh: "shrink me env count s1 = Inr s'" and r: "r = Success"
    by (auto simp: SetWorkerCount_def split: sum.splits if_splits)
  from shrink_by_one[OF sh] assms(2) same obtain s2 where
    "shrink_round me env (touch me 63 s1) = Inr s2" "s' = touch me 63 s2"
    by auto
  with r show ?thesis
    by (simp add: shrink_round_holds_queue_mutex)
qed

lemma SetWorkerCount_blocked:
  "\<not> pool_lock_free s \<Longrightarrow> SetWorkerCount me env count s = Inl Blocked"
  by (auto simp: SetWorkerCount_def pool_lock_free_def lock_workers_def)

lemma EnableGrowth_blocked:
  "\<not> pool_lock_free s \<Longrightarrow> EnableGrowth me enable s = Inl Blocked"
  by (auto simp: EnableGrowth_def pool_lock_free_def lock_workers_def)

lemma AddTask_blocked_pool:
  "writer (m_TaskWorkersMutex s) \<noteq> None \<Longrightarrow> AddTask me task s = Inl Blocked"
  by (auto simp: AddTask_def AddTask_begin_def lock_shared_workers_def)

lemma AddTask_blocked:
  assumes "\<exists>w\<in>set (m_TaskWorkers s). w \<noteq> None"
    and "\<not> (writer (m_TaskWorkersMutex s) = None \<and> m_TaskQueueMutex s = None
          \<and> m_FreeTaskPoolMutex s = None)"
  shows "AddTask me task s = Inl Blocked"
proof -
  from assms(1) have ne: "m_TaskWorkers s \<noteq> []" by auto
  have avail: "any_worker (m_TaskWorkers s)"
    using assms(1) by (simp add: any_worker_iff)
  show ?thesis
    using assms(2) ne avail
    by (auto simp: AddTask_def AddTask_begin_def AddTask_end_def acquire_slot_def enqueue_def
        lock_shared_workers_def unlock_shared_workers_def lock_queue_def unlock_queue_def
        lock_free_pool_def unlock_free_pool_def AreThereAnyAvailableWorker_def AllocT_def
        split: option.splits)
qed

lemma under_shared_lock_blocked:
  "writer (m_TaskWorkersMutex s) \<noteq> None \<Longrightarrow> under_shared_lock me body s = Inl Blocked"
  by (auto simp: under_shared_lock_def lock_shared_workers_def)

lemma WorkerFn_step_pool:
  assumes "WorkerFn_step w i pc s = Inr (pc', s')"
  shows "m_TaskWorkers s' = m_TaskWorkers s"
proof (cases pc)
  case AtCheck
  with assms show ?thesis
    by (auto split: sum.splits dest: CanWorkerContinueWorking_result)
next
  case (AtTest canWork)
  with assms show ?thesis
    by (auto simp: unlock_queue_def split: sum.splits if_splits)
next
  case (Executing task)
  with assms show ?thesis
    by (cases task)
      (auto simp: release_slot_def run_task_def lock_free_pool_def unlock_free_pool_def
        split: sum.splits if_splits option.splits)
qed (use assms in \<open>auto simp: lock_queue_def split: sum.splits option.splits\<close>)

lemma step_taken:
  assumes "\<not> present i (sched sys)"
  shows "\<not> present i (sched (step w i c e sys))
    \<and> taken (step w i c e sys) + cleared (worker (step w i c e sys))
        \<le> taken sys + cleared (worker sys)"
proof (cases e)
  case Work
  show ?thesis
  proof (cases "WorkerFn_step w i (worker sys) (sched sys)")
    case (Inl f)
    with Work assms show ?thesis by simp
  next
    case (Inr r)
    obtain pc' s' where r: "r = (pc', s')" by (cases r)
    have st: "step w i c e sys = sys\<lparr>sched := s', worker := pc'\<rparr>"
      by (simp add: Work Inr r)
    consider (test) "worker sys = AtTest True"
      | (exec) p where "worker sys = Executing (Some p)"
      | (idle) "worker sys = Executing None"
      | (before) "\<not> past_check (worker sys)"
      by (cases "worker sys" rule: past_check.cases) auto
    then show ?thesis
    proof cases
      case test
      from WorkerFn_step_test[OF Inr[unfolded r test]] WorkerFn_step_pool[OF Inr[unfolded r]]
        test assms
      show ?thesis
        unfolding st
        by (auto simp: taken_def cleared_def in_flight_def present_def split: if_splits)
    next
      case (exec p)
      from WorkerFn_step_execute[OF Inr[unfolded r exec]] exec assms
      have "taken (sys\<lparr>sched := s', worker := pc'\<rparr>) \<le> taken sys" "pc' = AtLock"
        by (auto simp: taken_def in_flight_def split: option.splits)
      moreover from Inr[unfolded r] have "m_TaskWorkers s' = m_TaskWorkers (sched sys)"
        by (rule WorkerFn_step_pool)
      ultimately show ?thesis
        unfolding st using assms by (simp add: cleared_def present_def)
    next
      case idle
      with Inr r assms show ?thesis
        unfolding st by (auto simp: taken_def cleared_def in_flight_def present_def)
    next
      case before
      from WorkerFn_step_before_check[OF Inr[unfolded r] before assms]
      have f: "\<not> past_check pc'" "executed s' = executed (sched sys)"
        "m_TaskWorkers s' = m_TaskWorkers (sched sys)"
        by simp_all
      from f(1) have "pc' \<noteq> AtTest True" "\<forall>p. pc' \<noteq> Executing (Some p)" by auto
      moreover from before have "\<forall>p. worker sys \<noteq> Executing (Some p)" by auto
      ultimately show ?thesis
        unfolding st using f assms
        by (simp add: taken_def cleared_def in_flight_none present_def)
    qed
  qed
next
  case (Submit task)
  show ?thesis
  proof (cases "client sys")
    case (Some a)
    with Submit assms show ?thesis by simp
  next
    case None
    show ?thesis
    proof (cases "AddTask_begin c task (sched sys)")
      case (Inl f)
      with Submit None assms show ?thesis by simp
    next
      case (Inr x)
      obtain q s' where x: "x = (q, s')" by (cases x)
      from AddTask_begin_fields[OF Inr[unfolded x]] Submit None Inr x assms
      show ?thesis by (cases q) (simp_all add: present_def taken_def in_flight_def)
    qed
  qed
next
  case Finish
  show ?thesis
  proof (cases "client sys")
    case None
    with Finish assms show ?thesis by simp
  next
    case (Some a)
    obtain p t where a: "a = (p, t)" by (cases a)
    show ?thesis
    proof (cases "AddTask_end c p (sched sys)")
      case (Inl f)
      with Finish Some a assms show ?thesis by simp
    next
      case (Inr s')
      from AddTask_end_fields[OF Inr] Finish Some a Inr assms
      show ?thesis by (simp add: present_def taken_def in_flight_def)
    qed
  qed
next
  case (Shrink r count)
  show ?thesis
  proof (cases "length (m_TaskWorkers (sched sys)) > count")
    case False
    with Shrink assms show ?thesis by simp
  next
    case True
    show ?thesis
    proof (cases "begin_shrink r (sched sys)")
      case (Inl f)
      with Shrink True assms show ?thesis by simp
    next
      case (Inr x)
      obtain th sz s' where x: "x = (th, sz, s')" by (cases x)
      from begin_shrink_fields[OF Inr[unfolded x]]
      have f: "executed s' = executed (sched sys)"
        "m_TaskWorkers s' = (m_TaskWorkers (sched sys))[length (m_TaskWorkers (sched sys)) - 1 := None]"
        by simp_all
      from present_after_mark[OF assms f(2)] f(1) Shrink True Inr x
      show ?thesis by (simp add: taken_def in_flight_def)
    qed
  qed
qed

lemma run_taken:
  "\<not> present i (sched sys) \<Longrightarrow>
   taken (run w i c evs sys) + cleared (worker (run w i c evs sys))
     \<le> taken sys + cleared (worker sys)"
proof (induction evs arbitrary: sys)
  case Nil
  then show ?case by simp
next
  case (Cons e evs)
  from step_taken[OF Cons.prems, of w c e]
  have a: "\<not> present i (sched (step w i c e sys))"
    and b: "taken (step w i c e sys) + cleared (worker (step w i c e sys))
        \<le> taken sys + cleared (worker sys)"
    by simp_all
  from Cons.IH[OF a] b show ?case
    by simp
qed


lemma run_taken_bound:
  "\<not> present i (sched sys) \<Longrightarrow>
   taken (run w i c evs sys) \<le> taken sys + cleared (worker sys)"
  using run_taken[of i sys w c evs] by simp

section \<open>Which accesses to the worker pool are guarded\<close>








section \<open>The locks held at each point of an operation\<close>











lemma touch_set_queue_mutex [simp]:
  "touch me l (set_queue_mutex q s) = set_queue_mutex q (touch me l s)"
  by (simp add: touch_def set_queue_mutex_def holds_workers_def)

lemma set_queue_mutex_fields [simp]:
  "m_TaskWorkers (set_queue_mutex q s) = m_TaskWorkers s"
  "m_TaskWorkersMutex (set_queue_mutex q s) = m_TaskWorkersMutex s"
  "m_TaskQueue (set_queue_mutex q s) = m_TaskQueue s"
  "m_TaskQueueMutex (set_queue_mutex q s) = q"
  "m_FreeTaskPool (set_queue_mutex q s) = m_FreeTaskPool s"
  "m_AllowGrowth (set_queue_mutex q s) = m_AllowGrowth s"
  "m_ThreadManager (set_queue_mutex q s) = m_ThreadManager s"
  "storage (set_queue_mutex q s) = storage s"
  "unguarded (set_queue_mutex q s) = unguarded s"
  by (simp_all add: set_queue_mutex_def)





























lemma SetWorkerCount_needs_live_manager:
  assumes "pool_lock_free s" "m_AllowGrowth s" "expired env s"
    "length (m_TaskWorkers s) < target"
  shows "SetWorkerCount me env target s = Inr (Failure ProvisioningUnavailable, s)"
  using assms
  by (simp add: SetWorkerCount_def pool_lock_free_def lock_workers_def unlock_workers_def
      expired_def)

section \<open>The claims\<close>

text \<open>
  A call that asks for a mutex which is held has to wait: in the statements below its
  outcome is then \<open>Blocked\<close>, and what the claim says is the outcome of the call that gets
  its locks.
\<close>

text \<open>
  C1. \<^verbatim>\<open>AddTask\<close> appends the block of the task at the tail of the queue, and the worker
  takes the block at its head. In every run of one worker thread beside a thread that
  submits tasks one after the other (and beside shrink requests, which the order does not
  depend on), started where the blocks are kept apart and no task has been accepted yet:
  the tasks executed, the task being executed and the tasks in the queue are, in this
  order, the history at the start followed by the tasks accepted since, in the order of
  their submission. Started with no task executed or queued, the log of executed tasks
  is at every moment a prefix of the accepted tasks in submission order.
\<close>

theorem single_worker_fifo:
  "(AddTask_end c p s = Inr s' \<longrightarrow> m_TaskQueue s' = m_TaskQueue s @ [p])
   \<and> (WorkerFn_step w i (AtTest True) s = Inr (pc, s') \<and> m_TaskQueue s \<noteq> []
        \<longrightarrow> pc = Executing (Some (hd (m_TaskQueue s))) \<and> m_TaskQueue s' = tl (m_TaskQueue s))
   \<and> (blocks_apart sys \<and> accepted sys = []
        \<longrightarrow> history (run w i c evs sys) = history sys @ map Some (accepted (run w i c evs sys))
            \<and> (history sys = []
                 \<longrightarrow> (\<exists>rest. accepted (run w i c evs sys)
                              = executed (sched (run w i c evs sys)) @ rest)))"
proof (intro conjI impI; (elim conjE)?)
  assume "AddTask_end c p s = Inr s'"
  then show "m_TaskQueue s' = m_TaskQueue s @ [p]"
    by (simp add: AddTask_end_fields)
next
  assume a: "WorkerFn_step w i (AtTest True) s = Inr (pc, s')" "m_TaskQueue s \<noteq> []"
  from WorkerFn_step_test[OF a(1)] a(2)
  show "pc = Executing (Some (hd (m_TaskQueue s)))" "m_TaskQueue s' = tl (m_TaskQueue s)"
    by simp_all
next
  assume a: "blocks_apart sys" "accepted sys = []"
  then have "fifo_inv (history sys) sys"
    by (simp add: fifo_inv_def)
  then have "fifo_inv (history sys) (run w i c evs sys)"
    by (rule run_inv)
  then show h: "history (run w i c evs sys)
      = history sys @ map Some (accepted (run w i c evs sys))"
    by (simp add: fifo_inv_def)
  assume "history sys = []"
  with h have "map Some (accepted (run w i c evs sys))
      = map Some (executed (sched (run w i c evs sys)))
        @ map (storage (sched (run w i c evs sys)))
            (in_flight (run w i c evs sys) @ m_TaskQueue (sched (run w i c evs sys)))"
    by (simp add: history_def)
  then show "\<exists>rest. accepted (run w i c evs sys) = executed (sched (run w i c evs sys)) @ rest"
    by (rule prefix_of_history)
qed

theorem single_worker_fifo_witness:
  "blocks_apart idle_system \<and> accepted idle_system = [] \<and> history idle_system = []
   \<and> executed (sched (run 4 0 2 interleaved idle_system)) = [7, 8, 9]
   \<and> history (run 4 0 2 interleaved idle_system)
       = map Some (accepted (run 4 0 2 interleaved idle_system))
   \<and> (\<exists>rest. accepted (run 4 0 2 interleaved idle_system) = [7, 8, 9] @ rest)"
proof -
  have h: "blocks_apart idle_system" "accepted idle_system = []" "history idle_system = []"
    by (simp_all add: blocks_apart_def owned_def history_def in_flight_def in_hand_def
        holds_task_def idle_system_def bound_scheduler_def fresh_scheduler_def)
  have e: "executed (sched (run 4 0 2 interleaved idle_system)) = [7, 8, 9]"
    by (simp add: interleaved_run)
  note T = single_worker_fifo[where w = 4 and i = 0 and c = 2 and evs = interleaved
      and sys = idle_system]
  from T h have "history (run 4 0 2 interleaved idle_system)
      = history idle_system @ map Some (accepted (run 4 0 2 interleaved idle_system))"
    by blast
  then have c1: "history (run 4 0 2 interleaved idle_system)
      = map Some (accepted (run 4 0 2 interleaved idle_system))"
    by (simp only: h(3) append_Nil)
  from T h have "\<exists>rest. accepted (run 4 0 2 interleaved idle_system)
      = executed (sched (run 4 0 2 interleaved idle_system)) @ rest"
    by blast
  then have c2: "\<exists>rest. accepted (run 4 0 2 interleaved idle_system) = [7, 8, 9] @ rest"
    by (simp only: e)
  from h e c1 c2 show ?thesis
    by (intro conjI)
qed

text \<open>
  C2. With two workers and one task in the queue, \<^verbatim>\<open>Stop\<close> does not get past
  \<^verbatim>\<open>SetWorkerCount(0)\<close>: the first round of the shrink loop leaves the worker-pool lock
  released and the task-queue mutex held, and the second round unlocks the worker-pool
  lock it does not hold (and would then ask for the task-queue mutex it holds). The
  queued task is not run.
\<close>

theorem Stop_stuck_with_two_workers:
  "Create 0 example_env (Some 5) 2 True = Inr (bound_scheduler [Some 100, Some 101])
   \<and> AddTask 1 7 (bound_scheduler [Some 100, Some 101])
       = Inr (Success, queued_scheduler [Some 100, Some 101])
   \<and> lock_workers 0 (queued_scheduler [Some 100, Some 101])
       = Inr ((queued_scheduler [Some 100, Some 101])
                \<lparr>m_TaskWorkersMutex := \<lparr>writer = Some 0, readers = []\<rparr>\<rparr>)
   \<and> shrink_round 0 example_env
        ((queued_scheduler [Some 100, Some 101])
           \<lparr>m_TaskWorkersMutex := \<lparr>writer = Some 0, readers = []\<rparr>\<rparr>)
       = Inr ((queued_scheduler [Some 100])\<lparr>m_TaskQueueMutex := Some 0, unguarded := [82]\<rparr>)
   \<and> shrink_round 0 example_env
        ((queued_scheduler [Some 100])\<lparr>m_TaskQueueMutex := Some 0, unguarded := [82, 63]\<rparr>)
       = Inl UnlockNotOwned
   \<and> SetWorkerCount 0 example_env 0 (queued_scheduler [Some 100, Some 101]) = Inl UnlockNotOwned
   \<and> Stop 0 example_env (queued_scheduler [Some 100, Some 101]) = Inl UnlockNotOwned"
  by (simp add: Create_def Stop_def AddTask_def AddTask_begin_def AddTask_end_def
      acquire_slot_def enqueue_def AreThereAnyAvailableWorker_def AllocT_def
      SetWorkerCount_def shrink.simps grow.simps shrink_round_def expired_def
      shrink_mark_def shrink_join_def shrink_erase_def join_loop.simps erase_at_def
      lock_workers_def unlock_workers_def lock_queue_def unlock_queue_def
      lock_shared_workers_def unlock_shared_workers_def lock_free_pool_def
      unlock_free_pool_def queued_scheduler_def touch_def holds_workers_def
      bound_scheduler_def fresh_scheduler_def example_env_def)

text \<open>
  C3 (as amended). In every state with growth disabled, \<^verbatim>\<open>SetWorkerCount\<close> with a
  target above the current worker count returns the \<open>GrowthDisabled\<close> failure and leaves
  the whole state, so also the worker count, unchanged. After \<^verbatim>\<open>EnableGrowth(true)\<close> the
  same call returns success and the pool has the target size, provided the bound manager
  is alive and every thread-creation request of the resize succeeds.
\<close>

theorem growth_gating:
  "\<not> m_AllowGrowth s \<and> length (m_TaskWorkers s) < target \<longrightarrow>
     SetWorkerCount me env target s
       = (if pool_lock_free s then Inr (Failure GrowthDisabled, s) else Inl Blocked)
     \<and> EnableGrowth me True s
       = (if pool_lock_free s then Inr (s\<lparr>m_AllowGrowth := True\<rparr>) else Inl Blocked)
     \<and> (pool_lock_free s \<and> m_ThreadManager s = Some m \<and> alive env m
         \<and> (\<forall>j. length (m_TaskWorkers s) \<le> j \<and> j < target \<longrightarrow> CreateThread env m j = Inr (th j))
        \<longrightarrow> (\<exists>s'. SetWorkerCount me env target (s\<lparr>m_AllowGrowth := True\<rparr>) = Inr (Success, s')
                 \<and> length (m_TaskWorkers s') = target))"
proof (intro impI conjI; (elim conjE)?)
  assume a: "\<not> m_AllowGrowth s" "length (m_TaskWorkers s) < target"
  show "SetWorkerCount me env target s
      = (if pool_lock_free s then Inr (Failure GrowthDisabled, s) else Inl Blocked)"
    using a by (simp add: SetWorkerCount_growth_disabled SetWorkerCount_blocked)
  show "EnableGrowth me True s
      = (if pool_lock_free s then Inr (s\<lparr>m_AllowGrowth := True\<rparr>) else Inl Blocked)"
    by (simp add: EnableGrowth_free EnableGrowth_blocked)
  assume b: "pool_lock_free s" "m_ThreadManager s = Some m" "alive env m"
    "\<forall>j. length (m_TaskWorkers s) \<le> j \<and> j < target \<longrightarrow> CreateThread env m j = Inr (th j)"
  let ?s = "s\<lparr>m_AllowGrowth := True\<rparr>"
  have "SetWorkerCount me env target ?s =
     Inr (Success, ?s\<lparr>m_TaskWorkers :=
            m_TaskWorkers ?s @ map (\<lambda>j. Some (th j)) [length (m_TaskWorkers ?s)..<target]\<rparr>)"
    using a b by (intro SetWorkerCount_full_growth[where m = m]) (simp_all add: pool_lock_free_def)
  then show "\<exists>s'. SetWorkerCount me env target ?s = Inr (Success, s')
                 \<and> length (m_TaskWorkers s') = target"
    using a(2) by simp
qed

theorem growth_gating_witness:
  "pool_lock_free ((bound_scheduler [Some 100])\<lparr>m_AllowGrowth := False\<rparr>)
   \<and> SetWorkerCount 0 example_env 3 ((bound_scheduler [Some 100])\<lparr>m_AllowGrowth := False\<rparr>)
       = Inr (Failure GrowthDisabled, (bound_scheduler [Some 100])\<lparr>m_AllowGrowth := False\<rparr>)
   \<and> (\<exists>s'. SetWorkerCount 0 example_env 3 ((bound_scheduler [Some 100])\<lparr>m_AllowGrowth := True\<rparr>)
              = Inr (Success, s') \<and> length (m_TaskWorkers s') = 3)"
proof -
  let ?s = "(bound_scheduler [Some 100])\<lparr>m_AllowGrowth := False\<rparr>"
  have h: "pool_lock_free ?s" "\<not> m_AllowGrowth ?s" "length (m_TaskWorkers ?s) < 3"
    "m_ThreadManager ?s = Some 5" "alive example_env 5"
    "\<forall>j. length (m_TaskWorkers ?s) \<le> j \<and> j < 3 \<longrightarrow> CreateThread example_env 5 j = Inr (100 + j)"
    by (simp_all add: pool_lock_free_def bound_scheduler_def fresh_scheduler_def example_env_def)
  from growth_gating[of ?s 3 0 example_env 5 "\<lambda>j. 100 + j"] h show ?thesis
    by simp
qed

text \<open>
  C3 as stated fails where the provisioning subsystem is alive but refuses a thread: with
  growth enabled again, the call returns the failure of \<^verbatim>\<open>CreateThread\<close>.
\<close>

theorem growth_gating_counterexample:
  "SetWorkerCount 0 limited_env 3 ((bound_scheduler [Some 100])\<lparr>m_AllowGrowth := False\<rparr>)
     = Inr (Failure GrowthDisabled, (bound_scheduler [Some 100])\<lparr>m_AllowGrowth := False\<rparr>)
   \<and> EnableGrowth 0 True ((bound_scheduler [Some 100])\<lparr>m_AllowGrowth := False\<rparr>)
     = Inr (bound_scheduler [Some 100])
   \<and> \<not> expired limited_env (bound_scheduler [Some 100])
   \<and> SetWorkerCount 0 limited_env 3 (bound_scheduler [Some 100])
     = Inr (Failure ''no thread left'', bound_scheduler [Some 100])"
  by (simp add: SetWorkerCount_def EnableGrowth_def lock_workers_def unlock_workers_def
      expired_def bound_scheduler_def fresh_scheduler_def limited_env_def grow.simps)

text \<open>
  C4. In every state in which the worker pool is empty or every slot of it is absent,
  \<^verbatim>\<open>AddTask\<close> returns the \<open>NoAvailableWorkers\<close> failure and leaves the whole state, so
  also the task queue, unchanged. In particular, whenever \<^verbatim>\<open>SetWorkerCount(0)\<close> has
  returned, \<^verbatim>\<open>AddTask\<close> fails this way.
\<close>

theorem AddTask_no_available_workers:
  "((\<forall>w\<in>set (m_TaskWorkers s). w = None)
      \<longrightarrow> AddTask me task s
          = (if writer (m_TaskWorkersMutex s) = None then Inr (Failure NoAvailableWorkers, s)
             else Inl Blocked))
   \<and> (SetWorkerCount me' env 0 s0 = Inr (r, s1)
      \<longrightarrow> AddTask me task s1 = Inr (Failure NoAvailableWorkers, s1))"
  using AddTask_rejects[of s me task] AddTask_rejects[of s1 me task]
    SetWorkerCount_zero_returns[of me' env s0 r s1] AddTask_blocked_pool[of s me task]
  by auto

theorem AddTask_no_available_workers_witness:
  "writer (m_TaskWorkersMutex (bound_scheduler [None, None])) = None
   \<and> AddTask 1 7 (bound_scheduler [None, None])
       = Inr (Failure NoAvailableWorkers, bound_scheduler [None, None])
   \<and> SetWorkerCount 0 example_env 0 (bound_scheduler [Some 100])
       = Inr (Success, (bound_scheduler [])\<lparr>m_TaskQueueMutex := Some 0, unguarded := [82, 63]\<rparr>)
   \<and> AddTask 1 7 ((bound_scheduler [])\<lparr>m_TaskQueueMutex := Some 0, unguarded := [82, 63]\<rparr>)
       = Inr (Failure NoAvailableWorkers,
              (bound_scheduler [])\<lparr>m_TaskQueueMutex := Some 0, unguarded := [82, 63]\<rparr>)"
proof -
  have h: "writer (m_TaskWorkersMutex (bound_scheduler [None, None])) = None"
    "\<forall>w\<in>set (m_TaskWorkers (bound_scheduler [None, None])). w = None"
    by (simp_all add: bound_scheduler_def fresh_scheduler_def)
  have r: "SetWorkerCount 0 example_env 0 (bound_scheduler [Some 100])
       = Inr (Success, (bound_scheduler [])\<lparr>m_TaskQueueMutex := Some 0, unguarded := [82, 63]\<rparr>)"
    by (simp add: SetWorkerCount_def shrink.simps shrink_round_def shrink_mark_def
        shrink_join_def shrink_erase_def join_loop.simps erase_at_def lock_workers_def
        unlock_workers_def lock_queue_def bound_scheduler_def fresh_scheduler_def
        example_env_def touch_def holds_workers_def)
  from h r
    AddTask_no_available_workers[of "bound_scheduler [None, None]" 1 7 0 example_env
      "bound_scheduler [Some 100]" Success
      "(bound_scheduler [])\<lparr>m_TaskQueueMutex := Some 0, unguarded := [82, 63]\<rparr>"]
  show ?thesis by simp
qed




text \<open>
  C6 (as amended). A worker that wakes from the wait on the queue signal, whatever woke
  it, goes to the check of line 247; the check answers whether its id is present in the
  pool (in range and not null); the loop is left exactly from the loop test that follows
  a check with the answer false, and a waiting or starting worker whose id is not present
  leaves the loop within three of its steps. A worker whose id is not present and that is
  not between a check that let it continue and its return to line 240 never takes a block
  from the queue and never executes a task again, whatever the other threads do: the log
  of executed tasks stays as it is and the queue only grows at its tail. A worker whose
  id is not present takes at most one more block from the queue, and only when it stands
  at the loop test with a check passed.
\<close>

theorem worker_revalidates_after_wake:
  "(WorkerFn_step w i Waiting s = Inr (pc, s') \<longrightarrow> pc = AtCheck)
   \<and> (WorkerFn_step w i AtCheck s = Inr (pc, s') \<longrightarrow> pc = AtTest (present i s))
   \<and> (WorkerFn_step w i pc0 s = Inr (pc, s')
        \<longrightarrow> (pc = Terminated) = (pc0 = AtTest False \<or> pc0 = Terminated))
   \<and> (\<not> present i s \<and> writer (m_TaskWorkersMutex s) = None \<and> m_TaskQueueMutex s = None
        \<and> (pc0 = Waiting \<or> pc0 = AtLock)
        \<longrightarrow> worker (run w i c [Work, Work, Work]
                      \<lparr>sched = s, worker = pc0, client = cl, accepted = acc\<rparr>) = Terminated)
   \<and> (\<not> present i (sched sys) \<and> \<not> past_check (worker sys)
        \<longrightarrow> \<not> past_check (worker (run w i c evs sys))
            \<and> executed (sched (run w i c evs sys)) = executed (sched sys)
            \<and> (\<exists>ps. m_TaskQueue (sched (run w i c evs sys)) = m_TaskQueue (sched sys) @ ps))
   \<and> (\<not> present i (sched sys)
        \<longrightarrow> taken (run w i c evs sys) \<le> taken sys + cleared (worker sys))"
  using wake_leads_to_check[of w i s pc s'] check_reads_pool[of w i s pc s']
    leaves_on_failed_check[of w i pc0 s pc s'] absent_worker_leaves[of i s pc0 w c cl acc]
    run_before_check[of i sys w c evs] run_taken_bound[of i sys w c evs]
  by blast

theorem worker_revalidates_after_wake_witness:
  "\<not> present 0 (sched marked_system) \<and> worker marked_system = Waiting
   \<and> WorkerFn_step 4 0 Waiting (sched marked_system)
       = Inr (AtCheck, (sched marked_system)\<lparr>m_TaskQueueMutex := Some 4\<rparr>)
   \<and> WorkerFn_step 4 0 AtCheck ((sched marked_system)\<lparr>m_TaskQueueMutex := Some 4\<rparr>)
       = Inr (AtTest False, (sched marked_system)\<lparr>m_TaskQueueMutex := Some 4\<rparr>)
   \<and> worker (run 4 0 2 [Work, Work, Work] marked_system) = Terminated
   \<and> executed (sched (run 4 0 2 [Work, Submit 9, Work, Work, Work] marked_system)) = []
   \<and> (\<exists>ps. m_TaskQueue (sched (run 4 0 2 [Work, Submit 9, Work, Work, Work] marked_system))
          = [0, 1] @ ps)
   \<and> taken (run 4 0 2 [Work, Submit 9, Work, Work, Work] marked_system) = 0"
proof -
  let ?s = "sched marked_system"
  have m: "marked_system = \<lparr>sched = ?s, worker = Waiting, client = None, accepted = []\<rparr>"
    by (simp add: marked_system_def)
  have h: "\<not> present 0 ?s" "writer (m_TaskWorkersMutex ?s) = None" "m_TaskQueueMutex ?s = None"
    "\<not> past_check (worker marked_system)" "worker marked_system = Waiting"
    "m_TaskQueue ?s = [0, 1]" "executed ?s = []"
    by (simp_all add: marked_system_def present_def bound_scheduler_def fresh_scheduler_def)
  have s1: "WorkerFn_step 4 0 Waiting ?s = Inr (AtCheck, ?s\<lparr>m_TaskQueueMutex := Some 4\<rparr>)"
    using h(3) by (simp add: lock_queue_def)
  have s2: "WorkerFn_step 4 0 AtCheck (?s\<lparr>m_TaskQueueMutex := Some 4\<rparr>)
      = Inr (AtTest False, ?s\<lparr>m_TaskQueueMutex := Some 4\<rparr>)"
    using h(1,2)
    by (simp add: CanWorkerContinueWorking_def lock_shared_workers_def
        unlock_shared_workers_def present_def)
  note T = worker_revalidates_after_wake[where w = 4 and i = 0 and c = 2 and s = ?s
      and ?pc0.0 = Waiting and cl = None and acc = "[]" and sys = marked_system
      and evs = "[Work, Submit 9, Work, Work, Work]"]
  from T h(1,2,3) have "worker (run 4 0 2 [Work, Work, Work]
      \<lparr>sched = ?s, worker = Waiting, client = None, accepted = []\<rparr>) = Terminated"
    by blast
  then have c4: "worker (run 4 0 2 [Work, Work, Work] marked_system) = Terminated"
    by (simp only: m[symmetric])
  from T h(1,4) have "executed (sched (run 4 0 2 [Work, Submit 9, Work, Work, Work] marked_system))
      = executed ?s
    \<and> (\<exists>ps. m_TaskQueue (sched (run 4 0 2 [Work, Submit 9, Work, Work, Work] marked_system))
          = m_TaskQueue ?s @ ps)"
    by blast
  then have c5: "executed (sched (run 4 0 2 [Work, Submit 9, Work, Work, Work] marked_system)) = []"
    "\<exists>ps. m_TaskQueue (sched (run 4 0 2 [Work, Submit 9, Work, Work, Work] marked_system))
          = [0, 1] @ ps"
    by (simp_all only: h(6,7))
  have k: "taken marked_system + cleared (worker marked_system) = 0"
    by (simp add: taken_def cleared_def in_flight_def marked_system_def bound_scheduler_def
        fresh_scheduler_def)
  from T h(1) have "taken (run 4 0 2 [Work, Submit 9, Work, Work, Work] marked_system)
      \<le> taken marked_system + cleared (worker marked_system)"
    by blast
  then have c6: "taken (run 4 0 2 [Work, Submit 9, Work, Work, Work] marked_system) = 0"
    by (simp only: k le_zero_eq)
  from h(1,5) s1 s2 c4 c5 c6 show ?thesis
    by (intro conjI)
qed

text \<open>
  C6 as stated fails between the check and the dequeue. The worker passes its check
  (lines 240 and 241) while its slot is present; another thread calls
  \<^verbatim>\<open>SetWorkerCount(0)\<close> and resets the slot (lines 30 to 68); the worker, at line 244 with
  \<open>canWork\<close> still true, then takes the first block from the queue and executes its task.
\<close>

theorem dequeue_after_mark_counterexample:
  "worker (run 4 0 2 [Work, Work, Shrink 3 0] loaded_system) = AtTest True
   \<and> m_TaskWorkers (sched (run 4 0 2 [Work, Work, Shrink 3 0] loaded_system)) = [None]
   \<and> \<not> present 0 (sched (run 4 0 2 [Work, Work, Shrink 3 0] loaded_system))
   \<and> m_TaskQueue (sched (run 4 0 2 [Work, Work, Shrink 3 0] loaded_system)) = [0, 1]
   \<and> executed (sched (run 4 0 2 [Work, Work, Shrink 3 0] loaded_system)) = []
   \<and> m_TaskQueue (sched (run 4 0 2 [Work, Work, Shrink 3 0, Work, Work] loaded_system)) = [1]
   \<and> executed (sched (run 4 0 2 [Work, Work, Shrink 3 0, Work, Work] loaded_system)) = [7]"
  by (simp add: loaded_system_def bound_scheduler_def fresh_scheduler_def present_def
      lock_queue_def unlock_queue_def CanWorkerContinueWorking_def lock_shared_workers_def
      unlock_shared_workers_def begin_shrink_def shrink_mark_def lock_workers_def
      unlock_workers_def release_slot_def run_task_def lock_free_pool_def
      unlock_free_pool_def)

text \<open>
  C7 (as amended). The constructor leaves the activation subscription active and the
  registration subscription inactive. A run of \<^verbatim>\<open>OnNewManager\<close> that starts with at most
  one of the two subscriptions active ends with at most one active, and so does a run of
  \<^verbatim>\<open>OnManagerActivation\<close> that starts in the bound state, the state in which its
  notification is delivered. In both handlers every connect comes after a disconnect of
  the same subscription.
\<close>

theorem one_subscription_between_handlers:
  "(Create me env threadMgr workerCount allowGrowth = Inr s0 \<longrightarrow> Bound s0 \<and> \<not> Unbound s0)
   \<and> (\<not> (Bound s \<and> Unbound s) \<and> OnNewManager me env newInterface s = Inr s'
        \<longrightarrow> \<not> (Bound s' \<and> Unbound s'))
   \<and> (Bound s \<and> \<not> Unbound s \<and> OnManagerActivation me active oldInterface replacement s = Inr s''
        \<longrightarrow> \<not> (Bound s'' \<and> Unbound s''))
   \<and> disconnects_first False False (OnNewManager_body env newInterface)
   \<and> disconnects_first False False (OnManagerActivation_body active oldInterface replacement)"
proof (intro conjI impI; (elim conjE)?)
  assume "Create me env threadMgr workerCount allowGrowth = Inr s0"
  then show "Bound s0" "\<not> Unbound s0"
    by (simp_all add: Create_bound)
next
  assume inv: "\<not> (Bound s \<and> Unbound s)" and run: "OnNewManager me env newInterface s = Inr s'"
  from run have "writer (m_TaskWorkersMutex s) = None"
    unfolding OnNewManager_def by (rule under_shared_lock_returns)
  with run have "exec_stmts (OnNewManager_body env newInterface) s = Inr s'"
    by (simp add: OnNewManager_def under_shared_lock_result)
  from exec_stmts_OnNewManager[OF this inv] show "\<not> (Bound s' \<and> Unbound s')" .
next
  assume b: "Bound s" "\<not> Unbound s"
    and run: "OnManagerActivation me active oldInterface replacement s = Inr s''"
  from run have "writer (m_TaskWorkersMutex s) = None"
    unfolding OnManagerActivation_def by (rule under_shared_lock_returns)
  with run have "exec_stmts (OnManagerActivation_body active oldInterface replacement) s = Inr s''"
    by (simp add: OnManagerActivation_def under_shared_lock_result)
  from exec_stmts_OnManagerActivation[OF this b] show "\<not> (Bound s'' \<and> Unbound s'')" .
next
  show "disconnects_first False False (OnNewManager_body env newInterface)"
    by (simp add: OnNewManager_body_def split: option.splits)
  show "disconnects_first False False (OnManagerActivation_body active oldInterface replacement)"
    by (simp add: OnManagerActivation_body_def split: option.splits)
qed

theorem one_subscription_between_handlers_witness:
  "Create 0 example_env (Some 5) 1 True = Inr (bound_scheduler [Some 100])
   \<and> Bound (bound_scheduler [Some 100]) \<and> \<not> Unbound (bound_scheduler [Some 100])
   \<and> OnManagerActivation 3 False (Some manager5) None (bound_scheduler [Some 100])
       = Inr (unbound_scheduler [Some 100])
   \<and> \<not> (Bound (unbound_scheduler [Some 100]) \<and> Unbound (unbound_scheduler [Some 100]))
   \<and> OnNewManager 3 example_env (Some manager6) (unbound_scheduler [Some 100])
       = Inr ((bound_scheduler [Some 100])\<lparr>m_ThreadManager := Some 6,
                                            m_OnManagerActivation := Some 6\<rparr>)
   \<and> \<not> (Bound ((bound_scheduler [Some 100])\<lparr>m_ThreadManager := Some 6,
                                              m_OnManagerActivation := Some 6\<rparr>)
        \<and> Unbound ((bound_scheduler [Some 100])\<lparr>m_ThreadManager := Some 6,
                                                 m_OnManagerActivation := Some 6\<rparr>))"
proof -
  let ?b = "bound_scheduler [Some 100]"
  let ?u = "unbound_scheduler [Some 100]"
  let ?r = "(bound_scheduler [Some 100])\<lparr>m_ThreadManager := Some 6, m_OnManagerActivation := Some 6\<rparr>"
  have c: "Create 0 example_env (Some 5) 1 True = Inr ?b"
    by (simp add: Create_def SetWorkerCount_def grow.simps lock_workers_def unlock_workers_def
        expired_def bound_scheduler_def fresh_scheduler_def example_env_def)
  have d: "OnManagerActivation 3 False (Some manager5) None ?b = Inr ?u"
    by (simp add: OnManagerActivation_def under_shared_lock_def OnManagerActivation_body_def
        lock_shared_workers_def unlock_shared_workers_def manager5_def unbound_scheduler_def
        bound_scheduler_def fresh_scheduler_def)
  have n: "OnNewManager 3 example_env (Some manager6) ?u = Inr ?r"
    by (simp add: OnNewManager_def under_shared_lock_def OnNewManager_body_def
        lock_shared_workers_def unlock_shared_workers_def manager6_def unbound_scheduler_def
        bound_scheduler_def fresh_scheduler_def example_env_def)
  from one_subscription_between_handlers[where me = 0 and env = example_env
      and threadMgr = "Some 5" and workerCount = 1 and allowGrowth = True and ?s0.0 = ?b]
    one_subscription_between_handlers[where me = 3 and env = example_env and s = ?u
      and newInterface = "Some manager6" and s' = ?r]
    one_subscription_between_handlers[where me = 3 and s = ?b and active = False
      and oldInterface = "Some manager5" and replacement = None and s'' = ?u] c d n
  show ?thesis
    by (simp add: Bound_def Unbound_def unbound_scheduler_def)
qed

text \<open>
  C7 as stated fails inside \<^verbatim>\<open>OnNewManager\<close>: the handler connects the activation
  subscription (line 153) before it disconnects the registration subscription (line 154),
  so in the state between the two lines both are active.
\<close>

theorem both_subscriptions_counterexample:
  "Unbound (unbound_scheduler [Some 100]) \<and> \<not> Bound (unbound_scheduler [Some 100])
   \<and> OnNewManager_body example_env (Some manager6)
       = [StoreManager 6, DisconnectActivation, ConnectActivation 6, DisconnectNewManager]
   \<and> Bound (states_after (OnNewManager_body example_env (Some manager6))
              (unbound_scheduler [Some 100]) ! 2)
   \<and> Unbound (states_after (OnNewManager_body example_env (Some manager6))
                (unbound_scheduler [Some 100]) ! 2)"
  by (simp add: OnNewManager_body_def manager6_def example_env_def Bound_def Unbound_def
      unbound_scheduler_def)

text \<open>
  C8. If, in a growing \<^verbatim>\<open>SetWorkerCount\<close> (growth allowed, the manager alive), the
  requests for the workers below index \<open>k\<close> succeed and the request for worker \<open>k\<close> fails,
  the call returns that failure and the state it leaves is the old one with the workers
  created so far appended: the old workers and the new ones are kept, and the worker
  count is \<open>k\<close>, the old count plus the number created.
\<close>

theorem growth_failure_keeps_workers:
  "m_AllowGrowth s \<and> m_ThreadManager s = Some m \<and> alive env m
   \<and> length (m_TaskWorkers s) \<le> k \<and> k < target
   \<and> (\<forall>j. length (m_TaskWorkers s) \<le> j \<and> j < k \<longrightarrow> CreateThread env m j = Inr (th j))
   \<and> CreateThread env m k = Inl msg
   \<longrightarrow> SetWorkerCount me env target s
         = (if pool_lock_free s
            then Inr (Failure msg,
                      s\<lparr>m_TaskWorkers :=
                           m_TaskWorkers s
                           @ map (\<lambda>j. Some (th j)) [length (m_TaskWorkers s)..<k]\<rparr>)
            else Inl Blocked)
       \<and> length (m_TaskWorkers s @ map (\<lambda>j. Some (th j)) [length (m_TaskWorkers s)..<k])
           = length (m_TaskWorkers s) + (k - length (m_TaskWorkers s))"
  using SetWorkerCount_partial_growth[of s m env k target th msg me]
    SetWorkerCount_blocked[of s me env target]
  by auto

theorem growth_failure_keeps_workers_witness:
  "pool_lock_free (bound_scheduler []) \<and> m_AllowGrowth (bound_scheduler [])
   \<and> CreateThread limited_env 5 0 = Inr 100
   \<and> CreateThread limited_env 5 1 = Inl ''no thread left''
   \<and> SetWorkerCount 0 limited_env 3 (bound_scheduler [])
       = Inr (Failure ''no thread left'', bound_scheduler [Some 100])"
proof -
  have h: "pool_lock_free (bound_scheduler [])" "m_AllowGrowth (bound_scheduler [])"
    "m_ThreadManager (bound_scheduler []) = Some 5" "alive limited_env 5"
    "length (m_TaskWorkers (bound_scheduler [])) \<le> 1"
    "\<forall>j. length (m_TaskWorkers (bound_scheduler [])) \<le> j \<and> j < 1
        \<longrightarrow> CreateThread limited_env 5 j = Inr 100"
    "CreateThread limited_env 5 0 = Inr 100"
    "CreateThread limited_env 5 1 = Inl ''no thread left''"
    by (simp_all add: pool_lock_free_def bound_scheduler_def fresh_scheduler_def limited_env_def)
  from growth_failure_keeps_workers[of "bound_scheduler []" 5 limited_env 1 3 "\<lambda>j. 100"
      "''no thread left''" 0] h
  show ?thesis
    by (simp add: bound_scheduler_def fresh_scheduler_def)
qed

text \<open>
  C9. The activation notification of the bound manager that carries a replacement
  (\<open>active\<close> false and \<open>newInterface\<close> not null; the source calls it a change of manager, as
  opposed to the deactivation, which carries none) makes the scheduler, bound before,
  bound to the replacement: the handler disconnects the activation subscription, connects
  it to the replacement and stores the reference to it, and changes nothing else. The
  registration subscription is inactive in every state the handler goes through, so the
  binding is never unbound on the way.
\<close>

theorem replacement_rebinds:
  "Bound s \<and> \<not> Unbound s \<longrightarrow>
     OnManagerActivation_body False oldInterface (Some new)
       = [DisconnectActivation, ConnectActivation (ident new), StoreManager (ident new)]
     \<and> OnManagerActivation me False oldInterface (Some new) s
       = (if writer (m_TaskWorkersMutex s) = None
          then Inr (s\<lparr>m_OnManagerActivation := Some (ident new),
                      m_ThreadManager := Some (ident new)\<rparr>)
          else Inl Blocked)
     \<and> Bound (s\<lparr>m_OnManagerActivation := Some (ident new), m_ThreadManager := Some (ident new)\<rparr>)
     \<and> list_all (\<lambda>t. \<not> Unbound t)
          (states_after (OnManagerActivation_body False oldInterface (Some new)) s)"
  by (simp add: OnManagerActivation_def under_shared_lock_result under_shared_lock_blocked
      OnManagerActivation_body_def Bound_def Unbound_def)

theorem replacement_rebinds_witness:
  "Bound (bound_scheduler [Some 100]) \<and> \<not> Unbound (bound_scheduler [Some 100])
   \<and> OnManagerActivation 3 False (Some manager5) (Some manager6) (bound_scheduler [Some 100])
       = Inr ((bound_scheduler [Some 100])\<lparr>m_OnManagerActivation := Some 6,
                                            m_ThreadManager := Some 6\<rparr>)
   \<and> map m_OnNewManager
        (states_after (OnManagerActivation_body False (Some manager5) (Some manager6))
           (bound_scheduler [Some 100])) = [None, None, None]"
proof -
  let ?s = "bound_scheduler [Some 100]"
  have h: "writer (m_TaskWorkersMutex ?s) = None" "Bound ?s" "\<not> Unbound ?s"
    by (simp_all add: bound_scheduler_def fresh_scheduler_def Bound_def Unbound_def)
  have i: "ident manager6 = 6"
    by (simp add: manager6_def)
  from replacement_rebinds[of ?s "Some manager5" manager6 3] h show ?thesis
    by (simp add: i Unbound_def)
qed

text \<open>
  C10. A scheduler is created with two workers, and thread 0 calls
  \<^verbatim>\<open>SetWorkerCount(1)\<close>, which returns success with the task-queue mutex still held
  (line 81). The slot of worker 0 is present, and \<^verbatim>\<open>AddTask\<close> waits for the task-queue
  mutex at line 112, from either thread and whatever the manager reference and the
  subscriptions are; the waiting worker cannot take the mutex either. In every run of the
  worker, the submitting thread and further shrink requests from there, no task is
  accepted, queued or executed.
\<close>

theorem AddTask_stalls_after_shrink:
  "Create 0 example_env (Some 5) 2 True = Inr (bound_scheduler [Some 100, Some 101])
   \<and> SetWorkerCount 0 example_env 1 (bound_scheduler [Some 100, Some 101])
       = Inr (Success, stalled_scheduler)
   \<and> m_TaskWorkers stalled_scheduler = [Some 100]
   \<and> present 0 stalled_scheduler
   \<and> m_TaskQueueMutex stalled_scheduler = Some 0
   \<and> AddTask 1 7 stalled_scheduler = Inl Blocked
   \<and> AddTask 0 7 stalled_scheduler = Inl Blocked
   \<and> AddTask 1 7 (rebind None None (Some 9) stalled_scheduler) = Inl Blocked
   \<and> WorkerFn_step 4 0 Waiting stalled_scheduler = Inl Blocked
   \<and> (\<forall>evs. accepted (run 4 0 1 evs stalled_system) = []
          \<and> m_TaskQueue (sched (run 4 0 1 evs stalled_system)) = []
          \<and> executed (sched (run 4 0 1 evs stalled_system)) = []
          \<and> worker (run 4 0 1 evs stalled_system) = Waiting)"
proof -
  have e: "Create 0 example_env (Some 5) 2 True = Inr (bound_scheduler [Some 100, Some 101])"
    "SetWorkerCount 0 example_env 1 (bound_scheduler [Some 100, Some 101])
       = Inr (Success, stalled_scheduler)"
    "m_TaskWorkers stalled_scheduler = [Some 100]"
    "present 0 stalled_scheduler"
    "m_TaskQueueMutex stalled_scheduler = Some 0"
    "AddTask 1 7 stalled_scheduler = Inl Blocked"
    "AddTask 0 7 stalled_scheduler = Inl Blocked"
    "AddTask 1 7 (rebind None None (Some 9) stalled_scheduler) = Inl Blocked"
    "WorkerFn_step 4 0 Waiting stalled_scheduler = Inl Blocked"
    by (simp_all add: Create_def AddTask_def AddTask_begin_def AddTask_end_def
        acquire_slot_def enqueue_def AreThereAnyAvailableWorker_def AllocT_def
        SetWorkerCount_def shrink.simps grow.simps shrink_round_def expired_def
        shrink_mark_def shrink_join_def shrink_erase_def join_loop.simps erase_at_def
        lock_workers_def unlock_workers_def lock_queue_def unlock_queue_def
        lock_shared_workers_def unlock_shared_workers_def lock_free_pool_def
        unlock_free_pool_def touch_def holds_workers_def present_def rebind_def
        stalled_scheduler_def bound_scheduler_def fresh_scheduler_def example_env_def)
  have s: "m_TaskQueueMutex (sched stalled_system) = Some 0"
    "worker stalled_system = AtLock \<or> worker stalled_system = Waiting"
    "accepted stalled_system = []" "m_TaskQueue (sched stalled_system) = []"
    "executed (sched stalled_system) = []" "worker stalled_system = Waiting"
    by (simp_all add: stalled_system_def stalled_scheduler_def bound_scheduler_def
        fresh_scheduler_def)
  have "\<forall>evs. accepted (run 4 0 1 evs stalled_system) = []
          \<and> m_TaskQueue (sched (run 4 0 1 evs stalled_system)) = []
          \<and> executed (sched (run 4 0 1 evs stalled_system)) = []
          \<and> worker (run 4 0 1 evs stalled_system) = Waiting"
  proof
    fix evs
    from held_queue_mutex_stalls[OF s(1,2), of 4 0 1 evs] s(3-6)
    show "accepted (run 4 0 1 evs stalled_system) = []
          \<and> m_TaskQueue (sched (run 4 0 1 evs stalled_system)) = []
          \<and> executed (sched (run 4 0 1 evs stalled_system)) = []
          \<and> worker (run 4 0 1 evs stalled_system) = Waiting"
      by simp
  qed
  with e show ?thesis
    by (intro conjI)
qed

end
